theory Spec2Isabelle
  imports Main
begin

section \<open>Strings, bytes and code points\<close>

text \<open>
  A Go string is a sequence of bytes, which is what \<^typ>\<open>string\<close> is. A rune is a code
  point; the runes that occur here are never negative, so they are natural numbers.
\<close>

type_synonym rune = nat

definition byte :: "char \<Rightarrow> nat" where
  "byte c = of_char c"

definition RuneError :: rune where
  "RuneError = 65533"

definition eof :: rune where
  "eof = 0"

text \<open>
  \<open>utf8.DecodeRuneInString\<close> of the Go library: the first code point of the string and
  its width in bytes; \<open>(RuneError, 0)\<close> for the empty string and \<open>(RuneError, 1)\<close> for
  an invalid encoding. \<open>rune_size\<close>, \<open>accept_lo\<close> and \<open>accept_hi\<close> are the library's tables
  \<open>first\<close> and \<open>acceptRanges\<close>.
\<close>

definition rune_size :: "nat \<Rightarrow> nat" where
  "rune_size s0 =
     (if 194 \<le> s0 \<and> s0 \<le> 223 then 2
      else if 224 \<le> s0 \<and> s0 \<le> 239 then 3
      else if 240 \<le> s0 \<and> s0 \<le> 244 then 4
      else 1)"

definition accept_lo :: "nat \<Rightarrow> nat" where
  "accept_lo s0 = (if s0 = 224 then 160 else if s0 = 240 then 144 else 128)"

definition accept_hi :: "nat \<Rightarrow> nat" where
  "accept_hi s0 = (if s0 = 237 then 159 else if s0 = 244 then 143 else 191)"

definition DecodeRuneInString :: "string \<Rightarrow> rune \<times> nat" where
  "DecodeRuneInString s =
     (case s of
        [] \<Rightarrow> (RuneError, 0)
      | c0 # t \<Rightarrow>
          let s0 = byte c0; sz = rune_size s0 in
          if s0 < 128 then (s0, 1)
          else if sz = 1 then (RuneError, 1)
          else if length s < sz then (RuneError, 1)
          else
            let s1 = byte (s ! 1) in
            if s1 < accept_lo s0 \<or> accept_hi s0 < s1 then (RuneError, 1)
            else if sz \<le> 2 then ((s0 mod 32) * 64 + s1 mod 64, 2)
            else
              let s2 = byte (s ! 2) in
              if s2 < 128 \<or> 191 < s2 then (RuneError, 1)
              else if sz \<le> 3 then ((s0 mod 16) * 4096 + (s1 mod 64) * 64 + s2 mod 64, 3)
              else
                let s3 = byte (s ! 3) in
                if s3 < 128 \<or> 191 < s3 then (RuneError, 1)
                else ((s0 mod 8) * 262144 + (s1 mod 64) * 4096 + (s2 mod 64) * 64
                        + s3 mod 64, 4))"

text \<open>
  \<open>utf8.AppendRune\<close>, which \<open>strings.Builder.WriteRune\<close> appends to the buffer: the UTF-8
  encoding of the rune, that of \<open>RuneError\<close> for a surrogate or a value out of range.
\<close>

definition chr :: "nat \<Rightarrow> char" where
  "chr n = char_of n"

definition EncodeRune :: "rune \<Rightarrow> string" where
  "EncodeRune r =
     (if r \<le> 127 then [chr r]
      else if r \<le> 2047 then [chr (192 + r div 64), chr (128 + r mod 64)]
      else if 1114111 < r \<or> (55296 \<le> r \<and> r \<le> 57343) then [chr 239, chr 191, chr 189]
      else if r \<le> 65535 then
        [chr (224 + r div 4096), chr (128 + (r div 64) mod 64), chr (128 + r mod 64)]
      else
        [chr (240 + r div 262144), chr (128 + (r div 4096) mod 64),
         chr (128 + (r div 64) mod 64), chr (128 + r mod 64)])"

text \<open>\<open>strings.HasPrefix\<close>.\<close>

definition HasPrefix :: "string \<Rightarrow> string \<Rightarrow> bool" where
  "HasPrefix s pre = (take (length pre) s = pre)"

section \<open>The glob translator (glob.go)\<close>

text \<open>
  A Go \<open>error\<close> value as this package produces it: the sentinel
  \<open>ErrUnterminatedClass\<close>, a \<open>*GlobError\<close> with its three fields, or an error of the
  regular expression engine (\<open>'e\<close>).
\<close>

datatype 'e error =
    ErrUnterminatedClass
  | GlobError (Pattern: string) (Index: nat) (Err: "'e error")
  | RegexpError 'e

text \<open>The two parse functions a \<open>parseFunc\<close> can be; \<open>nil\<close> is \<open>None\<close>.\<close>

datatype parseFunc = ParseMain | ParseClass

text \<open>
  \<open>globParser\<close>. The field \<open>in\<close> is \<open>inp\<close> here. \<open>index\<close> and \<open>width\<close> are Go ints that
  never go below zero; the two comparisons of differences of them are made in \<^typ>\<open>int\<close>.
\<close>

record 'e globParser =
  inp :: string
  index :: nat
  width :: nat
  neg :: bool
  err :: "'e error option"
  out :: string
  choiceNest :: int

definition WriteRune :: "rune \<Rightarrow> 'e globParser \<Rightarrow> 'e globParser" where
  "WriteRune r p = p\<lparr>out := out p @ EncodeRune r\<rparr>"

definition WriteString :: "string \<Rightarrow> 'e globParser \<Rightarrow> 'e globParser" where
  "WriteString s p = p\<lparr>out := out p @ s\<rparr>"

definition nextRune :: "'e globParser \<Rightarrow> rune \<times> 'e globParser" where
  "nextRune l =
     (let (r, w) = DecodeRuneInString (drop (index l) (inp l));
          l1 = l\<lparr>width := w\<rparr>
      in if w = 0 then (eof, l1) else (r, l1\<lparr>index := index l1 + w\<rparr>))"

definition backRune :: "'e globParser \<Rightarrow> 'e globParser" where
  "backRune l = l\<lparr>index := index l - width l, width := 0\<rparr>"

definition peek :: "'e globParser \<Rightarrow> rune \<times> 'e globParser" where
  "peek l = (let (r, l1) = nextRune l in (r, backRune l1))"

definition rn :: "char \<Rightarrow> rune" where
  "rn c = of_char c"

definition parseMain :: "'e globParser \<Rightarrow> parseFunc option \<times> 'e globParser" where
  "parseMain p0 =
     (let (r, p) = nextRune p0;
          literal = (\<lambda>q. (Some ParseMain, WriteRune r q))
      in
      if r = eof then (None, p)
      else if r = rn CHR 0x5C then
        (let (nxt, p1) = nextRune p in
         if nxt = eof then literal p1 else (Some ParseMain, WriteRune nxt p1))
      else if r = rn CHR ''!'' then
        (if int (index p) - int (width p) \<noteq> 0 then literal p
         else (Some ParseMain, p\<lparr>neg := \<not> neg p\<rparr>))
      else if r \<in> rn ` {CHR ''.'', CHR ''('', CHR '')'', CHR ''^'', CHR ''$'', CHR ''|'', CHR ''+''} then
        literal (WriteRune (rn CHR 0x5C) p)
      else if r = rn CHR ''{'' then
        (Some ParseMain, (WriteRune (rn CHR ''('') p)\<lparr>choiceNest := choiceNest p + 1\<rparr>)
      else if r = rn CHR '','' then
        (if choiceNest p = 0 then literal p
         else (Some ParseMain, WriteRune (rn CHR ''|'') p))
      else if r = rn CHR ''}'' then
        (if choiceNest p = 0 then literal p
         else (Some ParseMain, (WriteRune (rn CHR '')'') p)\<lparr>choiceNest := choiceNest p - 1\<rparr>))
      else if r = rn CHR ''['' then (Some ParseClass, p)
      else if r = rn CHR ''?'' then (Some ParseMain, WriteString ''[^/]'' p)
      else if r = rn CHR ''*'' then
        (if HasPrefix (drop (index p) (inp p)) ''*/'' then
           (let p1 = WriteString [CHR ''('', CHR ''|'', CHR ''['', CHR ''^'', CHR 0x5C, CHR ''0'',
                                  CHR '']'', CHR ''*'', CHR ''/'', CHR '')''] p
            in (Some ParseMain, p1\<lparr>index := index p1 + length ''*/''\<rparr>))
         else if fst (peek p) = rn CHR ''*'' then
           (let p1 = WriteString [CHR ''['', CHR ''^'', CHR 0x5C, CHR ''0'', CHR '']'', CHR ''*'',
                                  CHR ''/'', CHR ''?''] (snd (peek p))
            in (Some ParseMain, snd (nextRune p1)))
         else if fst (peek p) = rn CHR ''/'' then
           (let p1 = WriteString ''([^/]*/)?'' (snd (peek p))
            in (Some ParseMain, snd (nextRune p1)))
         else (Some ParseMain, WriteString ''[^/]*'' (snd (peek (snd (peek p))))))
      else literal p)"


lemma rune_size_cases: "rune_size b = 1 \<or> rune_size b = 2 \<or> rune_size b = 3 \<or> rune_size b = 4"
  by (simp add: rune_size_def)

lemma decode_width_le: "snd (DecodeRuneInString s) \<le> length s"
proof (cases s)
  case Nil
  then show ?thesis by (simp add: DecodeRuneInString_def)
next
  case (Cons c0 t)
  show ?thesis
    using rune_size_cases [of "byte c0"]
    by (elim disjE) (auto simp add: DecodeRuneInString_def Let_def Cons Suc_le_eq)
qed

lemma decode_width_pos: "s \<noteq> [] \<Longrightarrow> 0 < snd (DecodeRuneInString s)"
  by (cases s) (auto simp: DecodeRuneInString_def Let_def)

lemma decode_Nil [simp]: "DecodeRuneInString [] = (RuneError, 0)"
  by (simp add: DecodeRuneInString_def)

lemma decode_width_zero: "snd (DecodeRuneInString s) = 0 \<longleftrightarrow> s = []"
proof
  assume "snd (DecodeRuneInString s) = 0"
  then show "s = []" using decode_width_pos [of s] by (cases "s = []") simp_all
next
  assume "s = []"
  then show "snd (DecodeRuneInString s) = 0" by simp
qed

lemma nextRune_inp [simp]: "inp (snd (nextRune l)) = inp l"
  by (simp add: nextRune_def Let_def split: prod.splits)

lemma nextRune_index_mono: "index l \<le> index (snd (nextRune l))"
  by (simp add: nextRune_def Let_def split: prod.splits)

lemma nextRune_progress:
  "fst (nextRune l) \<noteq> eof \<Longrightarrow> index l < index (snd (nextRune l)) \<and> index l < length (inp l)"
  using decode_width_zero [of "drop (index l) (inp l)"]
  by (auto simp: nextRune_def Let_def split: prod.splits if_splits)

lemma nextRune_less:
  "fst (nextRune l) \<noteq> eof \<Longrightarrow> index (snd (nextRune l)) \<le> j \<Longrightarrow>
     length (inp l) - j < length (inp l) - index l"
  using nextRune_progress [of l] by linarith

lemma WriteRune_fields [simp]:
  "inp (WriteRune r p) = inp p" "index (WriteRune r p) = index p"
  "width (WriteRune r p) = width p" "neg (WriteRune r p) = neg p"
  "err (WriteRune r p) = err p" "choiceNest (WriteRune r p) = choiceNest p"
  "out (WriteRune r p) = out p @ EncodeRune r"
  by (simp_all add: WriteRune_def)

lemma WriteString_fields [simp]:
  "inp (WriteString s p) = inp p" "index (WriteString s p) = index p"
  "width (WriteString s p) = width p" "neg (WriteString s p) = neg p"
  "err (WriteString s p) = err p" "choiceNest (WriteString s p) = choiceNest p"
  "out (WriteString s p) = out p @ s"
  by (simp_all add: WriteString_def)

lemma rn_eq [simp]: "rn c = rn d \<longleftrightarrow> c = d"
  by (simp add: rn_def)

lemma rn_eof [simp]: "rn c = eof \<longleftrightarrow> c = CHR 0x00" "eof = rn c \<longleftrightarrow> c = CHR 0x00"
  using of_char_eq_iff [of c "CHR 0x00", where ?'a = nat]
  by (auto simp add: rn_def eof_def)

text \<open>
  One turn of the \<open>for\<close> loop of \<open>parseClass\<close>: \<open>Inl\<close> is a \<open>return\<close> with its value,
  \<open>Inr\<close> the parser with which the loop goes round again.
\<close>

definition classStep ::
  "nat \<Rightarrow> 'e globParser \<Rightarrow> (parseFunc option \<times> 'e globParser) + 'e globParser" where
  "classStep start p0 =
     (let r = fst (nextRune p0); p = snd (nextRune p0) in
      if r = eof then
        Inl (None, p\<lparr>err := Some (GlobError (inp p) (index p) ErrUnterminatedClass)\<rparr>)
      else if r = rn CHR 0x5C then
        (let nxt = fst (nextRune p); p1 = snd (nextRune p) in
         if nxt = eof then Inr (WriteRune r p1)
         else if nxt \<in> rn ` {CHR 0x5C, CHR ''-'', CHR ''^'', CHR ''['', CHR '']''} then
           Inr (WriteRune nxt (WriteRune (rn CHR 0x5C) p1))
         else Inr (WriteRune nxt p1))
      else if r = rn CHR ''!'' then
        (if int (index p) - int start - int (width p) = 0 then Inr (WriteRune (rn CHR ''^'') p)
         else Inr (WriteRune r p))
      else if r = rn CHR ''['' then Inr (WriteRune r (WriteRune (rn CHR 0x5C) p))
      else if r = rn CHR '']'' then Inl (Some ParseMain, WriteRune r p)
      else Inr (WriteRune r p))"

lemma classStep_Inr:
  "classStep start p = Inr q \<Longrightarrow>
     inp q = inp p \<and> index (snd (nextRune p)) \<le> index q \<and> fst (nextRune p) \<noteq> eof"
  by (auto simp add: classStep_def Let_def nextRune_index_mono split: if_splits)

lemma classStep_Inl:
  "classStep start p = Inl (st, q) \<Longrightarrow> inp q = inp p \<and> index q = index (snd (nextRune p))"
  by (auto simp add: classStep_def Let_def split: if_splits)

lemma classStep_Inl_Some:
  "classStep start p = Inl (Some f, q) \<Longrightarrow> fst (nextRune p) \<noteq> eof"
  by (auto simp add: classStep_def Let_def split: if_splits)

function parseClassLoop :: "nat \<Rightarrow> 'e globParser \<Rightarrow> parseFunc option \<times> 'e globParser" where
  "parseClassLoop start p0 =
     (case classStep start p0 of Inl res \<Rightarrow> res | Inr q \<Rightarrow> parseClassLoop start q)"
  by pat_completeness auto
termination
proof (relation "measure (\<lambda>(start, p). length (inp p) - index p)", goal_cases)
  case 1
  show ?case by simp
next
  case (2 start p0 q)
  then show ?case using classStep_Inr [of start p0 q] nextRune_less [of p0 "index q"] by simp
qed

declare parseClassLoop.simps [simp del]

definition parseClass :: "'e globParser \<Rightarrow> parseFunc option \<times> 'e globParser" where
  "parseClass p = parseClassLoop (index p) (WriteRune (rn CHR ''['') p)"


lemma backRune_fields [simp]:
  "inp (backRune l) = inp l" "index (backRune l) = index l - width l" "width (backRune l) = 0"
  "neg (backRune l) = neg l" "err (backRune l) = err l" "out (backRune l) = out l"
  "choiceNest (backRune l) = choiceNest l"
  by (simp_all add: backRune_def)

lemma nextRune_keeps [simp]:
  "neg (snd (nextRune l)) = neg l" "err (snd (nextRune l)) = err l"
  "out (snd (nextRune l)) = out l" "choiceNest (snd (nextRune l)) = choiceNest l"
  by (simp_all add: nextRune_def Let_def split: prod.splits)

lemma nextRune_index_width: "index (snd (nextRune l)) = index l + width (snd (nextRune l))"
  by (simp add: nextRune_def Let_def split: prod.splits)

lemma peek_fst [simp]: "fst (peek l) = fst (nextRune l)"
  by (simp add: peek_def case_prod_beta)

lemma peek_fields [simp]:
  "inp (snd (peek l)) = inp l" "index (snd (peek l)) = index l" "width (snd (peek l)) = 0"
  "neg (snd (peek l)) = neg l" "err (snd (peek l)) = err l" "out (snd (peek l)) = out l"
  "choiceNest (snd (peek l)) = choiceNest l"
  using nextRune_index_width [of l]
  by (simp_all add: peek_def case_prod_beta)

lemma parseMain_inp [simp]: "inp (snd (parseMain p)) = inp p"
  by (simp add: parseMain_def Let_def case_prod_beta)

lemma nextRune_index_trans: "i \<le> index l \<Longrightarrow> i \<le> index (snd (nextRune l))"
  using nextRune_index_mono [of l] by linarith

lemma parseMain_eof: "fst (nextRune p) = eof \<Longrightarrow> fst (parseMain p) = None"
  by (simp add: parseMain_def Let_def case_prod_beta)

lemma parseMain_index_mono: "index (snd (nextRune p)) \<le> index (snd (parseMain p))"
  by (simp add: parseMain_def Let_def case_prod_beta nextRune_index_trans)

lemma parseMain_progress:
  "fst (parseMain p) \<noteq> None \<Longrightarrow>
     index p < index (snd (parseMain p)) \<and> index p < length (inp p)"
proof -
  assume "fst (parseMain p) \<noteq> None"
  then have "fst (nextRune p) \<noteq> eof" using parseMain_eof [of p] by auto
  then have "index p < index (snd (nextRune p)) \<and> index p < length (inp p)"
    by (rule nextRune_progress)
  then show ?thesis using parseMain_index_mono [of p] by linarith
qed

lemma parseClassLoop_inp [simp]: "inp (snd (parseClassLoop start p)) = inp p"
proof (induction start p rule: parseClassLoop.induct)
  case (1 start p0)
  show ?case
  proof (cases "classStep start p0")
    case (Inl res)
    then show ?thesis
      using classStep_Inl [of start p0 "fst res" "snd res"]
      by (subst parseClassLoop.simps) simp
  next
    case (Inr q)
    then show ?thesis
      using classStep_Inr [of start p0 q] 1 [of q]
      by (subst parseClassLoop.simps) simp
  qed
qed

lemma parseClassLoop_index_mono:
  "index (snd (nextRune p)) \<le> index (snd (parseClassLoop start p))"
proof (induction start p rule: parseClassLoop.induct)
  case (1 start p0)
  show ?case
  proof (cases "classStep start p0")
    case (Inl res)
    then show ?thesis
      using classStep_Inl [of start p0 "fst res" "snd res"]
      by (subst parseClassLoop.simps) simp
  next
    case (Inr q)
    then have "index (snd (nextRune p0)) \<le> index (snd (nextRune q))"
      using classStep_Inr [of start p0 q] nextRune_index_mono [of q] by linarith
    then show ?thesis
      using Inr 1 [of q] by (subst parseClassLoop.simps) simp
  qed
qed

lemma parseClassLoop_eof: "fst (nextRune p) = eof \<Longrightarrow> fst (parseClassLoop start p) = None"
  by (subst parseClassLoop.simps) (simp add: classStep_def Let_def)

lemma parseClassLoop_progress:
  "fst (parseClassLoop start p) \<noteq> None \<Longrightarrow>
     index p < index (snd (parseClassLoop start p)) \<and> index p < length (inp p)"
proof -
  assume "fst (parseClassLoop start p) \<noteq> None"
  then have "fst (nextRune p) \<noteq> eof" using parseClassLoop_eof [of p start] by auto
  then have "index p < index (snd (nextRune p)) \<and> index p < length (inp p)"
    by (rule nextRune_progress)
  then show ?thesis using parseClassLoop_index_mono [of p start] by linarith
qed

lemma parseClass_inp [simp]: "inp (snd (parseClass p)) = inp p"
  by (simp add: parseClass_def)

lemma parseClass_progress:
  "fst (parseClass p) \<noteq> None \<Longrightarrow>
     index p < index (snd (parseClass p)) \<and> index p < length (inp p)"
  using parseClassLoop_progress [of "index p" "WriteRune (rn CHR ''['') p"]
  by (simp add: parseClass_def)

text \<open>
  The loop of \<open>CompileGlob\<close>: \<open>for state := parseMain; state != nil; state = state(&p)\<close>,
  from any state.
\<close>

definition applyState :: "parseFunc \<Rightarrow> 'e globParser \<Rightarrow> parseFunc option \<times> 'e globParser" where
  "applyState f p = (case f of ParseMain \<Rightarrow> parseMain p | ParseClass \<Rightarrow> parseClass p)"

lemma applyState_inp [simp]: "inp (snd (applyState f p)) = inp p"
  by (cases f) (simp_all add: applyState_def)

lemma applyState_progress:
  "fst (applyState f p) \<noteq> None \<Longrightarrow>
     index p < index (snd (applyState f p)) \<and> index p < length (inp p)"
  using parseMain_progress [of p] parseClass_progress [of p]
  by (cases f) (simp_all add: applyState_def)

lemma applyState_index_mono: "index p \<le> index (snd (applyState f p))"
proof (cases f)
  case ParseMain
  then show ?thesis
    using parseMain_index_mono [of p] nextRune_index_mono [of p] by (simp add: applyState_def)
next
  case ParseClass
  then show ?thesis
    using parseClassLoop_index_mono [of "WriteRune (rn CHR ''['') p" "index p"]
      nextRune_index_mono [of "WriteRune (rn CHR ''['') p"]
    by (simp add: applyState_def parseClass_def)
qed

function run :: "parseFunc option \<Rightarrow> 'e globParser \<Rightarrow> 'e globParser" where
  "run None p = p"
| "run (Some f) p = run (fst (applyState f p)) (snd (applyState f p))"
  by pat_completeness auto
termination
proof (relation "measure (\<lambda>(st, p). (case st of None \<Rightarrow> 0 | Some _ \<Rightarrow> 1) + 2 * (length (inp p) - index p))", goal_cases)
  case 1
  show ?case by simp
next
  case (2 f p)
  show ?case
  proof (cases "fst (applyState f p)")
    case None
    then show ?thesis using applyState_index_mono [of p f] by simp
  next
    case (Some g)
    then have "index p < index (snd (applyState f p)) \<and> index p < length (inp p)"
      using applyState_progress [of f p] by simp
    then show ?thesis using Some by simp linarith
  qed
qed

section \<open>The regular expression engine (Go's \<open>regexp\<close>)\<close>

text \<open>
  \<open>CompileGlob\<close> hands the text it has built to \<open>regexp.Compile\<close> and \<open>Match\<close> calls
  \<open>MatchString\<close>. The engine is modelled for the syntax the translator itself writes:
  literals, escaped punctuation and octal escapes, \<open>.\<close>, \<open>^\<close>, \<open>$\<close>, bracket classes with
  ranges and negation, capturing groups, the flag group \<open>(?s)\<close>, alternation and the
  operators \<open>*\<close>, \<open>+\<close>, \<open>?\<close> (also non-greedy). The parser follows \<open>regexp/syntax\<close> with
  the flags \<open>syntax.Perl\<close>: a stack of parsed items with markers for \<open>(\<close> and \<open>|\<close>. Syntax
  beyond this (counted repetition, named classes, escapes made of a letter or digit, other
  flag groups) is answered with \<open>OutsideFragment\<close>, which is no answer of the real engine;
  nothing below is proved from it. The engine's limits on size and nesting are left out.
\<close>

datatype syntax_error =
    ErrInvalidUTF8 | ErrMissingParen | ErrUnexpectedParen | ErrMissingBracket
  | ErrMissingRepeatArgument | ErrInvalidRepeatOp | ErrTrailingBackslash | ErrInvalidEscape
  | ErrInvalidCharRange | OutsideFragment

datatype regex =
    EmptyMatch | NoMatch | Literal rune | CharClass bool "(rune \<times> rune) list"
  | AnyChar | AnyCharNotNL | BeginText | EndText
  | Concat regex regex | Alternate regex regex
  | Star regex | Plus regex | Quest regex | Capture regex

function decodeAll :: "string \<Rightarrow> (rune \<times> nat) list" where
  "decodeAll s =
     (if s = [] then []
      else DecodeRuneInString s # decodeAll (drop (snd (DecodeRuneInString s)) s))"
  by pat_completeness auto
termination
  by (relation "measure length") (simp_all add: decode_width_pos)

declare decodeAll.simps [simp del]

definition checkUTF8 :: "string \<Rightarrow> bool" where
  "checkUTF8 s = ((RuneError, 1) \<notin> set (decodeAll s))"

definition isalnum :: "rune \<Rightarrow> bool" where
  "isalnum c \<longleftrightarrow> (48 \<le> c \<and> c \<le> 57) \<or> (65 \<le> c \<and> c \<le> 90) \<or> (97 \<le> c \<and> c \<le> 122)"

definition isoctal :: "rune \<Rightarrow> bool" where
  "isoctal c \<longleftrightarrow> 48 \<le> c \<and> c \<le> 55"

definition parseEscape :: "rune list \<Rightarrow> syntax_error + (rune \<times> rune list)" where
  "parseEscape t =
     (case t of
        [] \<Rightarrow> Inl ErrTrailingBackslash
      | c # t1 \<Rightarrow>
          if c = rn CHR ''0'' then
            (case t1 of
               [] \<Rightarrow> Inr (0, t1)
             | d1 # t2 \<Rightarrow>
                 if isoctal d1 then
                   (case t2 of
                      [] \<Rightarrow> Inr (d1 - 48, t2)
                    | d2 # t3 \<Rightarrow>
                        if isoctal d2 then Inr ((d1 - 48) * 8 + (d2 - 48), t3)
                        else Inr (d1 - 48, t2))
                 else Inr (0, t1))
          else if c < 128 \<and> \<not> isalnum c then Inr (c, t1)
          else if c < 128 then Inl OutsideFragment
          else Inl ErrInvalidEscape)"

lemma parseEscape_length: "parseEscape t = Inr (r, t') \<Longrightarrow> length t' < length t"
  by (auto simp add: parseEscape_def split: list.splits if_splits)

definition parseClassChar :: "rune list \<Rightarrow> syntax_error + (rune \<times> rune list)" where
  "parseClassChar s =
     (case s of
        [] \<Rightarrow> Inl ErrMissingBracket
      | c # t \<Rightarrow> if c = rn CHR 0x5C then parseEscape t else Inr (c, t))"

lemma parseClassChar_length: "parseClassChar t = Inr (r, t') \<Longrightarrow> length t' < length t"
  using parseEscape_length [of "tl t" r t']
  by (auto simp add: parseClassChar_def split: list.splits if_splits)

text \<open>
  One turn of the loop of the parser's \<open>parseClass\<close>: the closing bracket (\<open>None\<close>), or one
  character or range of the class.
\<close>

definition classItem ::
  "bool \<Rightarrow> rune list \<Rightarrow> syntax_error + ((rune \<times> rune) option \<times> rune list)" where
  "classItem first t =
     (if t \<noteq> [] \<and> hd t = rn CHR '']'' \<and> \<not> first then Inr (None, tl t)
      else if 2 < length t \<and> t ! 0 = rn CHR ''['' \<and> t ! 1 = rn CHR '':'' then Inl OutsideFragment
      else
        (case parseClassChar t of
           Inl e \<Rightarrow> Inl e
         | Inr (lo, t1) \<Rightarrow>
             if 2 \<le> length t1 \<and> t1 ! 0 = rn CHR ''-'' \<and> t1 ! 1 \<noteq> rn CHR '']'' then
               (case parseClassChar (tl t1) of
                  Inl e \<Rightarrow> Inl e
                | Inr (hi, t2) \<Rightarrow>
                    if hi < lo then Inl ErrInvalidCharRange else Inr (Some (lo, hi), t2))
             else Inr (Some (lo, lo), t1)))"

lemma classItem_length: "classItem first t = Inr (x, t') \<Longrightarrow> length t' < length t"
proof -
  assume a: "classItem first t = Inr (x, t')"
  have tl_less: "\<And>u v::rune list. length u < length (tl v) \<Longrightarrow> length u < length v" by simp
  show ?thesis
    using a
    by (auto simp add: classItem_def split: if_splits sum.splits prod.splits
        dest!: parseClassChar_length dest: tl_less)
qed

function classLoop ::
  "bool \<Rightarrow> (rune \<times> rune) list \<Rightarrow> rune list \<Rightarrow> syntax_error + ((rune \<times> rune) list \<times> rune list)" where
  "classLoop first cls t =
     (case classItem first t of
        Inl e \<Rightarrow> Inl e
      | Inr (None, t1) \<Rightarrow> Inr (cls, t1)
      | Inr (Some rg, t1) \<Rightarrow> classLoop False (cls @ [rg]) t1)"
  by pat_completeness auto
termination
  by (relation "measure (\<lambda>(first, cls, t). length t)") (auto dest: classItem_length)

declare classLoop.simps [simp del]

lemma classLoop_length: "classLoop first cls t = Inr (res, t') \<Longrightarrow> length t' < length t"
proof (induction first cls t rule: classLoop.induct)
  case (1 first cls t)
  show ?case
  proof (cases "classItem first t")
    case (Inl e)
    then show ?thesis using "1.prems" by (subst (asm) classLoop.simps) simp
  next
    case (Inr pr)
    obtain x t1 where pr: "pr = (x, t1)" by (cases pr)
    have l1: "length t1 < length t" using classItem_length Inr pr by blast
    show ?thesis
    proof (cases x)
      case None
      then show ?thesis using "1.prems" Inr pr l1 by (subst (asm) classLoop.simps) simp
    next
      case (Some rg)
      then have "classLoop False (cls @ [rg]) t1 = Inr (res, t')"
        using "1.prems" Inr pr by (subst (asm) classLoop.simps) simp
      then have "length t' < length t1"
        using "1.IH" [OF Inr pr [symmetric] Some] by simp
      then show ?thesis using l1 by simp
    qed
  qed
qed


text \<open>
  The parser's stack, top first: a parsed expression, or one of the two markers
  \<open>opLeftParen\<close> (with the flags in force before it) and \<open>opVerticalBar\<close>.
\<close>

datatype item = Re regex | LeftParen bool | VerticalBar

fun isRe :: "item \<Rightarrow> bool" where
  "isRe (Re _) = True"
| "isRe _ = False"

fun collapse :: "(regex \<Rightarrow> regex \<Rightarrow> regex) \<Rightarrow> regex \<Rightarrow> item list \<Rightarrow> regex" where
  "collapse opr e [] = e"
| "collapse opr e [Re r] = r"
| "collapse opr e (Re r # x # xs) = opr r (collapse opr e (x # xs))"
| "collapse opr e (_ # xs) = collapse opr e xs"

definition re_concat :: "item list \<Rightarrow> item list" where
  "re_concat stack =
     Re (collapse Concat EmptyMatch (rev (takeWhile isRe stack))) # dropWhile isRe stack"

definition re_alternate :: "item list \<Rightarrow> item list" where
  "re_alternate stack =
     Re (collapse Alternate NoMatch (rev (takeWhile isRe stack))) # dropWhile isRe stack"

text \<open>\<open>swapVerticalBar\<close>: the new stack and whether a bar was found under the top.\<close>

definition swapVerticalBar :: "item list \<Rightarrow> item list \<times> bool" where
  "swapVerticalBar stack =
     (case stack of
        re1 # VerticalBar # rest \<Rightarrow> (VerticalBar # re1 # rest, True)
      | _ \<Rightarrow> (stack, False))"

definition parseVerticalBar :: "item list \<Rightarrow> item list" where
  "parseVerticalBar stack =
     (let (st, swapped) = swapVerticalBar (re_concat stack)
      in if swapped then st else VerticalBar # st)"

text \<open>What the end of a group and the end of the input share: \<open>concat\<close>, drop a bar, \<open>alternate\<close>.\<close>

definition closeAlternation :: "item list \<Rightarrow> item list" where
  "closeAlternation stack =
     (let (st, swapped) = swapVerticalBar (re_concat stack)
      in re_alternate (if swapped then tl st else st))"

definition parseRightParen :: "item list \<Rightarrow> syntax_error + (item list \<times> bool)" where
  "parseRightParen stack =
     (case closeAlternation stack of
        Re re1 # LeftParen flags # rest \<Rightarrow> Inr (Re (Capture re1) # rest, flags)
      | _ \<Rightarrow> Inl ErrUnexpectedParen)"

definition re_finish :: "item list \<Rightarrow> syntax_error + regex" where
  "re_finish stack =
     (case closeAlternation stack of
        [Re r] \<Rightarrow> Inr r
      | _ \<Rightarrow> Inl ErrMissingParen)"

definition re_parseClass :: "rune list \<Rightarrow> syntax_error + (regex \<times> rune list)" where
  "re_parseClass t =
     (let negated = (t \<noteq> [] \<and> hd t = rn CHR ''^'');
          t0 = (if negated then tl t else t)
      in case classLoop True [] t0 of
           Inl e \<Rightarrow> Inl e
         | Inr (cls, t1) \<Rightarrow> Inr (CharClass negated cls, t1))"

lemma re_parseClass_length: "re_parseClass t = Inr (r, t') \<Longrightarrow> length t' < length t"
  by (auto simp add: re_parseClass_def Let_def split: sum.splits if_splits
      dest!: classLoop_length)

text \<open>
  One turn of the loop of \<open>syntax.Parse\<close> (flags \<open>syntax.Perl\<close>), on the first rune \<open>c\<close> and
  the rest \<open>t1\<close>: the new stack, the \<open>DotNL\<close> flag, whether this turn was a repetition
  operator (\<open>lastRepeat\<close>), and the text left.
\<close>

definition parseStep ::
  "item list \<Rightarrow> bool \<Rightarrow> bool \<Rightarrow> rune \<Rightarrow> rune list \<Rightarrow>
     syntax_error + (item list \<times> bool \<times> bool \<times> rune list)" where
  "parseStep stack dotNL lastRepeat c t1 =
     (if c = rn CHR ''('' then
        (if t1 \<noteq> [] \<and> hd t1 = rn CHR ''?'' then
           (if take 3 t1 = map rn ''?s)'' then Inr (stack, True, False, drop 3 t1)
            else Inl OutsideFragment)
         else Inr (LeftParen dotNL # stack, dotNL, False, t1))
      else if c = rn CHR ''|'' then Inr (parseVerticalBar stack, dotNL, False, t1)
      else if c = rn CHR '')'' then
        (case parseRightParen stack of
           Inl e \<Rightarrow> Inl e
         | Inr (st, flags) \<Rightarrow> Inr (st, flags, False, t1))
      else if c = rn CHR ''^'' then Inr (Re BeginText # stack, dotNL, False, t1)
      else if c = rn CHR ''$'' then Inr (Re EndText # stack, dotNL, False, t1)
      else if c = rn CHR ''.'' then
        Inr (Re (if dotNL then AnyChar else AnyCharNotNL) # stack, dotNL, False, t1)
      else if c = rn CHR ''['' then
        (case re_parseClass t1 of
           Inl e \<Rightarrow> Inl e
         | Inr (r, t2) \<Rightarrow> Inr (Re r # stack, dotNL, False, t2))
      else if c = rn CHR ''*'' \<or> c = rn CHR ''+'' \<or> c = rn CHR ''?'' then
        (let after = (if t1 \<noteq> [] \<and> hd t1 = rn CHR ''?'' then tl t1 else t1) in
         if lastRepeat then Inl ErrInvalidRepeatOp
         else
           (case stack of
              Re sub # rest \<Rightarrow>
                Inr (Re (if c = rn CHR ''*'' then Star sub
                         else if c = rn CHR ''+'' then Plus sub else Quest sub) # rest,
                     dotNL, True, after)
            | _ \<Rightarrow> Inl ErrMissingRepeatArgument))
      else if c = rn CHR ''{'' then
        (if t1 \<noteq> [] \<and> 48 \<le> hd t1 \<and> hd t1 \<le> 57 then Inl OutsideFragment
         else Inr (Re (Literal c) # stack, dotNL, False, t1))
      else if c = rn CHR 0x5C then
        (case parseEscape t1 of
           Inl e \<Rightarrow> Inl e
         | Inr (r, t2) \<Rightarrow> Inr (Re (Literal r) # stack, dotNL, False, t2))
      else Inr (Re (Literal c) # stack, dotNL, False, t1))"

lemma parseStep_length:
  "parseStep stack dotNL lastRepeat c t1 = Inr (st, d, l, t') \<Longrightarrow> length t' \<le> length t1"
  by (auto simp add: parseStep_def Let_def split: if_splits sum.splits prod.splits list.splits item.splits
      dest!: re_parseClass_length parseEscape_length)

function parseLoop :: "item list \<Rightarrow> bool \<Rightarrow> bool \<Rightarrow> rune list \<Rightarrow> syntax_error + regex" where
  "parseLoop stack dotNL lastRepeat t =
     (case t of
        [] \<Rightarrow> re_finish stack
      | c # t1 \<Rightarrow>
          (case parseStep stack dotNL lastRepeat c t1 of
             Inl e \<Rightarrow> Inl e
           | Inr (st, d, l, t2) \<Rightarrow> parseLoop st d l t2))"
  by pat_completeness auto
termination
  by (relation "measure (\<lambda>(stack, dotNL, lastRepeat, t). length t)")
     (auto dest: parseStep_length)


declare parseLoop.simps [simp del]

text \<open>
  \<open>regexp.Compile\<close>: the text must be valid UTF-8, and is parsed rune by rune.
\<close>

definition regexp_Compile :: "string \<Rightarrow> syntax_error + regex" where
  "regexp_Compile expr =
     (if \<not> checkUTF8 expr then Inl ErrInvalidUTF8
      else parseLoop [] False False (map fst (decodeAll expr)))"

subsection \<open>Matching\<close>

fun weight :: "regex \<Rightarrow> nat" where
  "weight (Concat a b) = Suc (weight a + weight b)"
| "weight (Alternate a b) = Suc (weight a + weight b)"
| "weight (Star a) = Suc (weight a)"
| "weight (Plus a) = Suc (Suc (weight a))"
| "weight (Quest a) = Suc (weight a)"
| "weight (Capture a) = Suc (weight a)"
| "weight _ = 0"

definition inClass :: "(rune \<times> rune) list \<Rightarrow> rune \<Rightarrow> bool" where
  "inClass cls r = list_ex (\<lambda>(lo, hi). lo \<le> r \<and> r \<le> hi) cls"

text \<open>
  \<open>reach re s i\<close>: the positions of \<open>s\<close> at which a match of \<open>re\<close> that starts at position
  \<open>i\<close> can end.
\<close>

function reach :: "regex \<Rightarrow> rune list \<Rightarrow> nat \<Rightarrow> nat list" where
  "reach EmptyMatch s i = [i]"
| "reach NoMatch s i = []"
| "reach (Literal c) s i = (if i < length s \<and> s ! i = c then [Suc i] else [])"
| "reach (CharClass negated cls) s i =
     (if i < length s \<and> (inClass cls (s ! i) \<noteq> negated) then [Suc i] else [])"
| "reach AnyChar s i = (if i < length s then [Suc i] else [])"
| "reach AnyCharNotNL s i = (if i < length s \<and> s ! i \<noteq> 10 then [Suc i] else [])"
| "reach BeginText s i = (if i = 0 then [i] else [])"
| "reach EndText s i = (if i = length s then [i] else [])"
| "reach (Concat a b) s i = concat (map (reach b s) (reach a s i))"
| "reach (Alternate a b) s i = reach a s i @ reach b s i"
| "reach (Star a) s i =
     i # concat (map (reach (Star a) s) (filter (\<lambda>j. i < j \<and> j \<le> length s) (reach a s i)))"
| "reach (Plus a) s i = concat (map (reach (Star a) s) (reach a s i))"
| "reach (Quest a) s i = i # reach a s i"
| "reach (Capture a) s i = reach a s i"
  by pat_completeness auto
termination
  by (relation "measures [\<lambda>(re, s, i). weight re, \<lambda>(re, s, i). length s - i]") auto

lemmas reach_Star = reach.simps(11)

declare reach.simps(11) [simp del]

text \<open>
  \<open>Regexp.MatchString\<close>: whether the expression matches somewhere in the string. The
  engine reads the string rune by rune with \<open>DecodeRuneInString\<close> (\<open>runes\<close>), an invalid
  byte as \<open>RuneError\<close>.
\<close>

definition runes :: "string \<Rightarrow> rune list" where
  "runes s = map fst (decodeAll s)"

definition MatchString :: "regex \<Rightarrow> string \<Rightarrow> bool" where
  "MatchString re s =
     (let rs = runes s
      in list_ex (\<lambda>i. reach re rs i \<noteq> []) [0 ..< Suc (length rs)])"

section \<open>Compiled globs (glob.go)\<close>

record Glob =
  pattern :: string
  re :: regex
  negated :: bool

text \<open>
  The first lines of \<open>CompileGlob\<close>: the parser on the pattern, \<open>^(?s)\<close> written, and the
  state loop run to its end.
\<close>

definition initial :: "string \<Rightarrow> syntax_error globParser" where
  "initial pat =
     WriteString ''^(?s)''
       \<lparr>inp = pat, index = 0, width = 0, neg = False, err = None, out = [], choiceNest = 0\<rparr>"

definition parsePattern :: "string \<Rightarrow> syntax_error globParser" where
  "parsePattern pat = run (Some ParseMain) (initial pat)"

definition CompileGlob :: "string \<Rightarrow> syntax_error error + Glob" where
  "CompileGlob pat =
     (let p = parsePattern pat in
      case err p of
        Some e \<Rightarrow> Inl e
      | None \<Rightarrow>
          (case regexp_Compile (out (WriteRune (rn CHR ''$'') p)) of
             Inl e \<Rightarrow> Inl (RegexpError e)
           | Inr r \<Rightarrow> Inr \<lparr>pattern = pat, re = r, negated = neg p\<rparr>))"

definition Match :: "Glob \<Rightarrow> string \<Rightarrow> bool" where
  "Match g data = MatchString (re g) data"

text \<open>What \<open>MatchInfo\<close> uses of an \<open>os.FileInfo\<close>: \<open>Name()\<close> and \<open>IsDir()\<close>.\<close>

record FileInfo =
  Name :: string
  IsDir :: bool

definition MatchInfo :: "Glob \<Rightarrow> FileInfo \<Rightarrow> bool" where
  "MatchInfo g info =
     (let m = Match g (Name info)
      in if IsDir info then m \<or> Match g (Name info @ ''/'') else m)"

definition GlobMatch :: "string \<Rightarrow> string \<Rightarrow> syntax_error error + bool" where
  "GlobMatch pat data =
     (case CompileGlob pat of Inl e \<Rightarrow> Inl e | Inr g \<Rightarrow> Inr (Match g data))"

section \<open>Variable substitution (subst.go)\<close>

text \<open>
  A \<open>VariableMap\<close>: \<open>Get\<close> returns the value and whether the variable is present; the
  optional method \<open>CanSubstitute\<close> is \<open>None\<close> for a map that does not implement it.
\<close>

record VariableMap =
  Get :: "string \<Rightarrow> string \<times> bool"
  CanSubstitute :: "(string \<Rightarrow> bool) option"

text \<open>
  The errors of \<open>Substitute\<close>, each with the text its message quotes; \<open>RegexpFailure\<close> stands
  for an error of the regular expression branch, and \<open>SliceOutOfRange\<close> for the run-time
  panic of a slice expression whose bounds are out of range.
\<close>

datatype subst_error =
    MalformedRegexpSubstitution string
  | UndefinedVariable string
  | MalformedVariableSubstitution string
  | RegexpFailure string
  | SliceOutOfRange

text \<open>\<open>s[a:b]\<close>, which panics unless \<open>a \<le> b \<le> len(s)\<close>.\<close>

definition slice :: "string \<Rightarrow> nat \<Rightarrow> nat \<Rightarrow> string option" where
  "slice s a b = (if a \<le> b \<and> b \<le> length s then Some (take (b - a) (drop a s)) else None)"

text \<open>
  \<open>strings.IndexAny\<close> for a set of ASCII characters and \<open>strings.IndexByte\<close>: the index of
  the first byte that is one of them, \<open>None\<close> for \<open>-1\<close>.
\<close>

fun IndexAny :: "string \<Rightarrow> string \<Rightarrow> nat option" where
  "IndexAny [] chars = None"
| "IndexAny (x # xs) chars =
     (if x \<in> set chars then Some 0 else map_option Suc (IndexAny xs chars))"

definition IndexByte :: "string \<Rightarrow> char \<Rightarrow> nat option" where
  "IndexByte s c = IndexAny s [c]"

text \<open>
  The inner loop that counts the slashes of \<open>${name/re/repl}\<close>:
  \<open>for ; j < len(s) && count < 3; j++\<close>, a backslash skipping the byte after it. It returns
  \<open>j\<close> and \<open>count\<close> at its exit.
\<close>

function slashLoop :: "string \<Rightarrow> nat \<Rightarrow> nat \<Rightarrow> nat \<times> nat" where
  "slashLoop s j count =
     (if j < length s \<and> count < 3 then
        (if s ! j = CHR 0x5C then slashLoop s (j + 1 + 1) count
         else if s ! j = CHR ''/'' then slashLoop s (j + 1) (count + 1)
         else slashLoop s (j + 1) count)
      else (j, count))"
  by pat_completeness auto
termination
  by (relation "measure (\<lambda>(s, j, count). length s - j)") auto

declare slashLoop.simps [simp del]

text \<open>
  What one turn of the outer loop does: \<open>Return\<close> for a \<open>return\<close>, \<open>Break\<close> for \<open>break\<close> and
  \<open>break outer\<close>, and \<open>Next i start out\<close> for the end of the body or \<open>continue\<close>, with the
  value of \<open>i\<close> before the loop's \<open>i++\<close>.
\<close>

datatype turn = Return "subst_error + string" | Break | Next nat nat string

text \<open>
  The part of the body after the \<open>switch\<close> on the delimiter: \<open>i\<close> and \<open>delim\<close> as the switch
  left them, \<open>def\<close> the text after the name (\<open>None\<close> for \<open>nil\<close>). The regular expression
  branch (\<open>strings.FieldsFunc\<close>, \<open>regexp.Compile\<close>, \<open>ReplaceAllString\<close>) is the parameter
  \<open>regexpReplace\<close>, from \<open>*def\<close> and the value to the new value or an error.
\<close>

definition substitution ::
  "(string \<Rightarrow> string \<Rightarrow> subst_error + string) \<Rightarrow> VariableMap \<Rightarrow> string \<Rightarrow> nat \<Rightarrow> string \<Rightarrow>
     nat \<Rightarrow> string \<Rightarrow> nat \<Rightarrow> nat \<Rightarrow> string option \<Rightarrow> turn" where
  "substitution regexpReplace vars s start buf subsStart name i delim def =
     (if \<not> (case CanSubstitute vars of None \<Rightarrow> True | Some cs \<Rightarrow> cs name) then
        Next (i + delim + 1) start buf
      else
        (case slice s start subsStart of
           None \<Rightarrow> Return (Inl SliceOutOfRange)
         | Some before \<Rightarrow>
             let buf1 = buf @ before;
                 value = fst (Get vars name);
                 present = snd (Get vars name);
                 done = (\<lambda>v. Next (i + delim + 1) (i + delim + 1) (buf1 @ v))
             in
             (case def of
                None \<Rightarrow>
                  if \<not> present then Return (Inl (UndefinedVariable name)) else done value
              | Some d \<Rightarrow>
                  let deref = (if d = [] then [CHR 0x00] else d) in
                  if hd deref = CHR ''-'' then done (if \<not> present then tl deref else value)
                  else if hd deref = CHR ''+'' then done (if present then tl deref else value)
                  else if hd deref = CHR ''/'' then
                    (case regexpReplace d value of
                       Inl e \<Rightarrow> Return (Inl e)
                     | Inr v \<Rightarrow> done v)
                  else
                    (case slice s subsStart (i + delim + 1) of
                       None \<Rightarrow> Return (Inl SliceOutOfRange)
                     | Some quoted \<Rightarrow> Return (Inl (MalformedVariableSubstitution quoted))))))"

text \<open>The body of the outer loop, for \<open>i < len(s)\<close>.\<close>

definition substTurn ::
  "(string \<Rightarrow> string \<Rightarrow> subst_error + string) \<Rightarrow> VariableMap \<Rightarrow> string \<Rightarrow> nat \<Rightarrow> nat \<Rightarrow>
     string \<Rightarrow> turn" where
  "substTurn regexpReplace vars s i0 start buf =
     (if HasPrefix (drop i0 s) ''${'' then
        (let subsStart = i0; i = i0 + 2 in
         case IndexAny (drop i s) '':/}'' of
           None \<Rightarrow> Break
         | Some delim \<Rightarrow>
             let name = take delim (drop i s) in
             if s ! (i + delim) = CHR '':'' then
               (let i1 = i + (delim + 1) in
                case IndexByte (drop i1 s) CHR ''}'' of
                  None \<Rightarrow> Break
                | Some delim1 \<Rightarrow>
                    substitution regexpReplace vars s start buf subsStart name i1 delim1
                      (Some (take delim1 (drop i1 s))))
             else if s ! (i + delim) = CHR ''/'' then
               (let i1 = i + delim;
                    j = fst (slashLoop s i1 1);
                    count = snd (slashLoop s i1 1)
                in
                if count \<noteq> 3 then
                  (case slice s subsStart j of
                     None \<Rightarrow> Return (Inl SliceOutOfRange)
                   | Some quoted \<Rightarrow> Return (Inl (MalformedRegexpSubstitution quoted)))
                else
                  (case IndexByte (drop j s) CHR ''}'' of
                     None \<Rightarrow> Break
                   | Some d \<Rightarrow>
                       (case slice s i1 (j + d) of
                          None \<Rightarrow> Return (Inl SliceOutOfRange)
                        | Some sl \<Rightarrow>
                            substitution regexpReplace vars s start buf subsStart name (j + d) 0
                              (Some sl))))
             else if s ! (i + delim) = CHR ''}'' then
               substitution regexpReplace vars s start buf subsStart name i delim None
             else Break)
      else Next i0 start buf)"

lemma substitution_Next:
  "substitution rr vars s start buf subsStart name i delim def = Next i' start' buf' \<Longrightarrow> i \<le> i'"
  by (auto simp add: substitution_def Let_def split: if_splits option.splits sum.splits)

lemma slashLoop_mono: "j \<le> fst (slashLoop s j count)"
proof (induction s j count rule: slashLoop.induct)
  case (1 s j count)
  show ?case
    using 1 by (subst slashLoop.simps) (auto simp add: Let_def)
qed

lemma substTurn_Next:
  "substTurn rr vars s i start buf = Next i' start' buf' \<Longrightarrow> i \<le> i'"
  using slashLoop_mono [of "i + 2 + the (IndexAny (drop (i + 2) s) '':/}'')" s 1]
  by (auto simp add: substTurn_def Let_def split: if_splits option.splits
      dest!: substitution_Next)

text \<open>
  The outer loop \<open>for i := 0; i < len(s); i++\<close> and the two statements after it.
\<close>

function substLoop ::
  "(string \<Rightarrow> string \<Rightarrow> subst_error + string) \<Rightarrow> VariableMap \<Rightarrow> string \<Rightarrow> nat \<Rightarrow> nat \<Rightarrow>
     string \<Rightarrow> subst_error + string" where
  "substLoop regexpReplace vars s i start buf =
     (if i < length s then
        (case substTurn regexpReplace vars s i start buf of
           Return res \<Rightarrow> res
         | Break \<Rightarrow>
             (case slice s start (length s) of
                None \<Rightarrow> Inl SliceOutOfRange
              | Some rest \<Rightarrow> Inr (buf @ rest))
         | Next i1 start1 buf1 \<Rightarrow> substLoop regexpReplace vars s (i1 + 1) start1 buf1)
      else
        (case slice s start (length s) of
           None \<Rightarrow> Inl SliceOutOfRange
         | Some rest \<Rightarrow> Inr (buf @ rest)))"
  by pat_completeness auto
termination
  by (relation "measure (\<lambda>(rr, vars, s, i, start, buf). length s - i)")
     (auto dest!: substTurn_Next)

declare substLoop.simps [simp del]

definition Substitute ::
  "(string \<Rightarrow> string \<Rightarrow> subst_error + string) \<Rightarrow> string \<Rightarrow> VariableMap \<Rightarrow> subst_error + string" where
  "Substitute regexpReplace s vars = substLoop regexpReplace vars s 0 0 []"

section \<open>Facts about decoding and the parser's primitives\<close>

lemma mod_shift:
  fixes a :: nat
  assumes "k * m \<le> a" and "a < k * m + m"
  shows "a mod m = a - k * m"
proof -
  obtain d where d: "a = k * m + d" using assms(1) le_Suc_ex by blast
  then have "d < m" using assms(2) by simp
  then show ?thesis using d by simp
qed

lemma mod_bounds:
  fixes a :: nat
  shows "194 \<le> a \<Longrightarrow> a \<le> 223 \<Longrightarrow> 2 \<le> a mod 32"
    and "160 \<le> a \<Longrightarrow> a \<le> 191 \<Longrightarrow> 32 \<le> a mod 64"
    and "225 \<le> a \<Longrightarrow> a \<le> 239 \<Longrightarrow> 1 \<le> a mod 16"
    and "144 \<le> a \<Longrightarrow> a \<le> 191 \<Longrightarrow> 16 \<le> a mod 64"
    and "241 \<le> a \<Longrightarrow> a \<le> 244 \<Longrightarrow> 1 \<le> a mod 8"
  using mod_shift [of 6 32 a] mod_shift [of 2 64 a] mod_shift [of 14 16 a] mod_shift [of 30 8 a]
  by simp_all

lemma mult_bounds:
  fixes x :: nat
  shows "2 \<le> x \<Longrightarrow> 128 \<le> x * 64 + b"
    and "32 \<le> x \<Longrightarrow> 128 \<le> y * 4096 + x * 64 + b"
    and "1 \<le> x \<Longrightarrow> 128 \<le> x * 4096 + y * 64 + b"
    and "16 \<le> x \<Longrightarrow> 128 \<le> y * 262144 + x * 4096 + z * 64 + b"
    and "1 \<le> x \<Longrightarrow> 128 \<le> x * 262144 + y * 4096 + z * 64 + b"
  by simp_all

lemma decode_multi_ge:
  assumes "\<not> byte c < 128"
  shows "128 \<le> fst (DecodeRuneInString (c # cs))"
proof -
  consider "rune_size (byte c) = 1" | "rune_size (byte c) = 2"
    | "rune_size (byte c) = 3" | "rune_size (byte c) = 4"
    using rune_size_cases [of "byte c"] by blast
  then show ?thesis
  proof cases
    case 1
    then show ?thesis using assms by (simp add: DecodeRuneInString_def Let_def RuneError_def)
  next
    case 2
    then have r: "194 \<le> byte c" "byte c \<le> 223" by (simp_all add: rune_size_def split: if_splits)
    have "128 \<le> byte c mod 32 * 64 + b" for b
      using mod_bounds(1) [OF r] mult_bounds(1) by blast
    then show ?thesis
      using assms 2 by (simp add: DecodeRuneInString_def Let_def RuneError_def)
  next
    case 3
    then have r: "224 \<le> byte c" "byte c \<le> 239" by (simp_all add: rune_size_def split: if_splits)
    have a: "byte c \<noteq> 224 \<Longrightarrow> 128 \<le> byte c mod 16 * 4096 + y * 64 + b" for y b
      using mod_bounds(3) [of "byte c"] r mult_bounds(3) by simp
    have b: "\<not> x < 160 \<Longrightarrow> \<not> 191 < x \<Longrightarrow> 128 \<le> x mod 64 * 64 + b" for x b :: nat
      using mod_bounds(2) [of x] mult_bounds(2) [of "x mod 64" 0 b] by simp
    show ?thesis
      using assms 3 a b
      by (cases "byte c = 224")
         (simp_all add: DecodeRuneInString_def Let_def RuneError_def accept_lo_def accept_hi_def)
  next
    case 4
    then have r: "240 \<le> byte c" "byte c \<le> 244" by (simp_all add: rune_size_def split: if_splits)
    have a: "byte c \<noteq> 240 \<Longrightarrow> 128 \<le> byte c mod 8 * 262144 + y * 4096 + z * 64 + b" for y z b
      using mod_bounds(5) [of "byte c"] r mult_bounds(5) by simp
    have b: "\<not> x < 144 \<Longrightarrow> \<not> 191 < x \<Longrightarrow> 128 \<le> x mod 64 * 4096 + z * 64 + b"
      for x z b :: nat
      using mod_bounds(4) [of x] mult_bounds(4) [of "x mod 64" 0 z b] by simp
    show ?thesis
      using assms 4 a b
      by (cases "byte c = 240")
         (simp_all add: DecodeRuneInString_def Let_def RuneError_def accept_lo_def accept_hi_def)
  qed
qed

lemma rn_image [simp]: "rn c \<in> rn ` S \<longleftrightarrow> c \<in> S"
  by (auto simp add: rn_def)

lemma decode_ascii: "byte c < 128 \<Longrightarrow> DecodeRuneInString (c # cs) = (rn c, 1)"
  by (simp add: DecodeRuneInString_def rn_def byte_def)

lemma EncodeRune_ascii: "byte c < 128 \<Longrightarrow> EncodeRune (rn c) = [c]"
  by (simp add: EncodeRune_def rn_def byte_def chr_def)

lemma decode_rn_iff:
  assumes "byte c < 128"
  shows "fst (DecodeRuneInString s) = rn c \<longleftrightarrow> s \<noteq> [] \<and> hd s = c"
proof (cases s)
  case Nil
  then show ?thesis using assms by (simp add: RuneError_def rn_def byte_def)
next
  case (Cons c0 t)
  show ?thesis
  proof (cases "byte c0 < 128")
    case True
    then show ?thesis using Cons by (simp add: decode_ascii)
  next
    case False
    then have "128 \<le> fst (DecodeRuneInString (c0 # t))" by (rule decode_multi_ge)
    moreover have "c0 \<noteq> c" using False assms by auto
    ultimately show ?thesis using Cons assms by (auto simp add: rn_def byte_def)
  qed
qed

lemma decode_eof_iff: "fst (DecodeRuneInString s) = eof \<longleftrightarrow> s \<noteq> [] \<and> hd s = CHR 0x00"
  using decode_rn_iff [of "CHR 0x00" s] by (simp add: byte_def rn_def eof_def)

text \<open>What \<open>next\<close> returns, read off the bytes that are left.\<close>

lemma nextRune_rn_iff:
  "byte c < 128 \<Longrightarrow> c \<noteq> CHR 0x00 \<Longrightarrow>
     fst (nextRune l) = rn c \<longleftrightarrow> take 1 (drop (index l) (inp l)) = [c]"
proof -
  assume a: "byte c < 128" and b: "c \<noteq> CHR 0x00"
  let ?s = "drop (index l) (inp l)"
  have "fst (nextRune l) = (if ?s = [] then eof else fst (DecodeRuneInString ?s))"
    using decode_width_zero [of ?s] by (simp add: nextRune_def Let_def case_prod_beta)
  then show ?thesis
    using decode_rn_iff [OF a, of ?s] b by (cases ?s) auto
qed

lemma nextRune_eof_iff:
  "fst (nextRune l) = eof \<longleftrightarrow>
     drop (index l) (inp l) = [] \<or> take 1 (drop (index l) (inp l)) = [CHR 0x00]"
proof -
  let ?s = "drop (index l) (inp l)"
  have "fst (nextRune l) = (if ?s = [] then eof else fst (DecodeRuneInString ?s))"
    using decode_width_zero [of ?s] by (simp add: nextRune_def Let_def case_prod_beta)
  then show ?thesis
    using decode_eof_iff [of ?s] by (cases ?s) auto
qed


section \<open>Facts about the translator\<close>

lemma nextRune_index_width_int:
  "int (index (snd (nextRune l))) - int (width (snd (nextRune l))) = int (index l)"
  using nextRune_index_width [of l] by simp

lemma parseMain_neg:
  "neg (snd (parseMain p)) =
     (if fst (nextRune p) = rn CHR ''!'' \<and> index p = 0 then \<not> neg p else neg p)"
  by (simp add: parseMain_def Let_def case_prod_beta nextRune_index_width_int)

lemma classStep_keeps:
  "classStep start p = Inr q \<Longrightarrow> neg q = neg p \<and> err q = err p \<and> choiceNest q = choiceNest p"
  by (auto simp add: classStep_def Let_def split: if_splits)

lemma classStep_Inl_neg: "classStep start p = Inl (st, q) \<Longrightarrow> neg q = neg p"
  by (auto simp add: classStep_def Let_def split: if_splits)

lemma parseClassLoop_neg: "neg (snd (parseClassLoop start p)) = neg p"
proof (induction start p rule: parseClassLoop.induct)
  case (1 start p0)
  show ?case
  proof (cases "classStep start p0")
    case (Inl res)
    then show ?thesis
      using classStep_Inl_neg [of start p0 "fst res" "snd res"]
      by (subst parseClassLoop.simps) simp
  next
    case (Inr q)
    then show ?thesis
      using classStep_keeps [of start p0 q] 1 [of q]
      by (subst parseClassLoop.simps) simp
  qed
qed

lemma applyState_neg:
  "0 < index p \<Longrightarrow> neg (snd (applyState f p)) = neg p"
  by (cases f) (simp_all add: applyState_def parseMain_neg parseClass_def parseClassLoop_neg)

lemma run_inp [simp]: "inp (run st p) = inp p"
  by (induction st p rule: run.induct) simp_all

lemma run_neg: "0 < index p \<Longrightarrow> neg (run st p) = neg p"
proof (induction st p rule: run.induct)
  case (1 p)
  show ?case by simp
next
  case (2 f p)
  have "0 < index (snd (applyState f p))"
    using applyState_index_mono [of p f] "2.prems" by linarith
  then show ?case using 2 by (simp add: applyState_neg)
qed

lemma parseMain_out: "\<exists>b. out (snd (parseMain p)) = out p @ b"
  by (simp add: parseMain_def Let_def case_prod_beta)

lemma classStep_out:
  "classStep start p = Inr q \<Longrightarrow> \<exists>b. out q = out p @ b"
  "classStep start p = Inl (st, q) \<Longrightarrow> \<exists>b. out q = out p @ b"
  by (auto simp add: classStep_def Let_def split: if_splits)

lemma parseClassLoop_out: "\<exists>b. out (snd (parseClassLoop start p)) = out p @ b"
proof (induction start p rule: parseClassLoop.induct)
  case (1 start p0)
  show ?case
  proof (cases "classStep start p0")
    case (Inl res)
    then show ?thesis
      using classStep_out(2) [of start p0 "fst res" "snd res"]
      by (subst parseClassLoop.simps) simp
  next
    case (Inr q)
    then obtain b c where "out q = out p0 @ b" "out (snd (parseClassLoop start q)) = out q @ c"
      using classStep_out(1) [of start p0 q] 1 [of q] by blast
    then show ?thesis
      using Inr by (subst parseClassLoop.simps) simp
  qed
qed

lemma applyState_out: "\<exists>b. out (snd (applyState f p)) = out p @ b"
proof (cases f)
  case ParseMain
  then show ?thesis using parseMain_out [of p] by (simp add: applyState_def)
next
  case ParseClass
  then show ?thesis
    using parseClassLoop_out [of "index p" "WriteRune (rn CHR ''['') p"]
    by (auto simp add: applyState_def parseClass_def)
qed

lemma run_out: "\<exists>b. out (run st p) = out p @ b"
proof (induction st p rule: run.induct)
  case (1 p)
  show ?case by simp
next
  case (2 f p)
  obtain b c where "out (snd (applyState f p)) = out p @ b"
    "out (run (fst (applyState f p)) (snd (applyState f p))) = out (snd (applyState f p)) @ c"
    using applyState_out [of f p] 2 by blast
  then show ?case by simp
qed

lemma initial_fields [simp]:
  "inp (initial pat) = pat" "index (initial pat) = 0" "width (initial pat) = 0"
  "neg (initial pat) = False" "err (initial pat) = None" "out (initial pat) = ''^(?s)''"
  "choiceNest (initial pat) = 0"
  by (simp_all add: initial_def)

lemma parsePattern_initial: "parsePattern pat = run (Some ParseMain) (initial pat)"
  by (simp add: parsePattern_def)

lemma parsePattern_neg: "neg (parsePattern pat) \<longleftrightarrow> take 1 pat = ''!''"
proof -
  let ?q = "snd (parseMain (initial pat))"
  have a: "neg ?q \<longleftrightarrow> take 1 pat = ''!''"
    using nextRune_rn_iff [of "CHR ''!''" "initial pat"]
    by (simp add: parseMain_neg byte_def)
  show ?thesis
  proof (cases "fst (parseMain (initial pat))")
    case None
    then show ?thesis using a by (simp add: parsePattern_initial applyState_def)
  next
    case (Some f)
    then have "0 < index ?q" using parseMain_progress [of "initial pat"] by simp
    then have "neg (run (Some f) ?q) = neg ?q" by (rule run_neg)
    then show ?thesis using a Some by (simp add: parsePattern_initial applyState_def)
  qed
qed


section \<open>Evaluation on concrete patterns\<close>

declare run.simps [simp del]

lemmas glob_eval =
  parsePattern_def initial_def run.simps applyState_def parseMain_def parseClass_def
  parseClassLoop.simps classStep_def nextRune_def peek_def backRune_def
  WriteRune_def WriteString_def HasPrefix_def decode_ascii EncodeRune_ascii byte_def Let_def

lemmas regexp_eval =
  regexp_Compile_def checkUTF8_def decodeAll.simps decode_ascii byte_def RuneError_def
  parseLoop.simps parseStep_def re_parseClass_def classLoop.simps classItem_def
  parseClassChar_def parseEscape_def isalnum_def isoctal_def re_finish_def
  closeAlternation_def re_concat_def re_alternate_def swapVerticalBar_def
  parseRightParen_def parseVerticalBar_def Let_def

lemmas runes_eval = runes_def decodeAll.simps decode_ascii byte_def rn_def

lemma compile_brace_a: "CompileGlob ''{a'' = Inl (RegexpError ErrMissingParen)"
proof -
  have p: "out (parsePattern ''{a'') = ''^(?s)(a''" "err (parsePattern ''{a'') = None"
    by (simp_all add: glob_eval)
  have r: "regexp_Compile ''^(?s)(a$'' = Inl ErrMissingParen"
    by (simp add: regexp_eval rn_def)
  show ?thesis using p r by (simp add: CompileGlob_def EncodeRune_ascii byte_def)
qed


section \<open>The claims\<close>

text \<open>
  C3 (as amended). Whenever the regular expression engine rejects the text the translator
  emitted, \<open>CompileGlob\<close> fails and the error it returns is the engine's own error, as the
  engine returned it: it is not a \<open>GlobError\<close> wrapping that error with offset 0.
\<close>

theorem C3_engine_error_is_returned_bare:
  "err (parsePattern pat) = None \<Longrightarrow>
   regexp_Compile (out (parsePattern pat) @ ''$'') = Inl e \<Longrightarrow>
     CompileGlob pat = Inl (RegexpError e) \<and>
     CompileGlob pat \<noteq> Inl (GlobError pat 0 (RegexpError e))"
  by (simp add: CompileGlob_def EncodeRune_ascii byte_def)

theorem C3_witness:
  "err (parsePattern ''{a'') = None \<and>
   regexp_Compile (out (parsePattern ''{a'') @ ''$'') = Inl ErrMissingParen \<and>
   CompileGlob ''{a'' = Inl (RegexpError ErrMissingParen) \<and>
   CompileGlob ''{a'' \<noteq> Inl (GlobError ''{a'' 0 (RegexpError ErrMissingParen))"
proof -
  have p: "err (parsePattern ''{a'') = None"
    by (simp add: glob_eval)
  have o: "out (parsePattern ''{a'') = ''^(?s)(a''"
    by (simp add: glob_eval)
  have r: "regexp_Compile (out (parsePattern ''{a'') @ ''$'') = Inl ErrMissingParen"
    unfolding o by (simp add: regexp_eval rn_def)
  show ?thesis
    using p r C3_engine_error_is_returned_bare [OF p r] by simp
qed

text \<open>
  C3 as stated fails on the pattern \<open>{a\<close>: the engine rejects the emitted text for its
  missing parenthesis, and the caller gets that error itself, not a \<open>GlobError\<close> around it.
\<close>

theorem C3_counterexample:
  "CompileGlob ''{a'' = Inl (RegexpError ErrMissingParen) \<and>
   CompileGlob ''{a'' \<noteq> Inl (GlobError ''{a'' 0 (RegexpError ErrMissingParen))"
  by (simp add: compile_brace_a)

lemma bang_bang_steps:
  "parsePattern (''!!'' @ rest) =
     run (Some ParseMain)
       \<lparr>inp = ''!!'' @ rest, index = 2, width = 1, neg = True, err = None,
        out = ''^(?s)!'', choiceNest = 0\<rparr>"
proof -
  let ?P1 = "\<lparr>inp = ''!!'' @ rest, index = 1, width = 1, neg = True, err = None :: syntax_error error option,
        out = ''^(?s)'', choiceNest = 0\<rparr>"
  let ?P2 = "\<lparr>inp = ''!!'' @ rest, index = 2, width = 1, neg = True, err = None :: syntax_error error option,
        out = ''^(?s)!'', choiceNest = 0\<rparr>"
  have a: "applyState ParseMain (initial (''!!'' @ rest)) = (Some ParseMain, ?P1)"
    by (simp add: initial_def applyState_def parseMain_def nextRune_def WriteRune_def
      WriteString_def decode_ascii EncodeRune_ascii byte_def Let_def)
  have b: "applyState ParseMain ?P1 = (Some ParseMain, ?P2)"
    by (simp add: applyState_def parseMain_def nextRune_def WriteRune_def
      WriteString_def decode_ascii EncodeRune_ascii byte_def Let_def)
  show ?thesis
    unfolding parsePattern_def
    by (subst run.simps, simp only: a fst_conv snd_conv, subst run.simps, simp only: b fst_conv snd_conv)
qed

text \<open>
  C4 (as amended). Only a \<open>!\<close> at byte offset 0 toggles the negation flag: after
  translation the flag is set exactly when the pattern begins with \<open>!\<close>. For a pattern
  beginning with two \<open>!\<close> characters the flag is toggled once and stays set, and the second
  \<open>!\<close> is emitted as a literal.
\<close>

theorem C4_only_the_first_bang_toggles:
  "(neg (parsePattern pat) \<longleftrightarrow> take 1 pat = ''!'') \<and>
   neg (parsePattern (''!!'' @ rest)) \<and>
   (\<exists>body. out (parsePattern (''!!'' @ rest)) = ''^(?s)!'' @ body)"
proof -
  let ?P2 = "\<lparr>inp = ''!!'' @ rest, index = 2, width = 1, neg = True,
        err = None :: syntax_error error option, out = ''^(?s)!'', choiceNest = 0\<rparr>"
  obtain b where "out (run (Some ParseMain) ?P2) = out ?P2 @ b"
    using run_out [of "Some ParseMain" ?P2] by blast
  then have "out (parsePattern (''!!'' @ rest)) = ''^(?s)!'' @ b"
    unfolding bang_bang_steps by simp
  then have "\<exists>body. out (parsePattern (''!!'' @ rest)) = ''^(?s)!'' @ body" by blast
  then show ?thesis by (simp add: parsePattern_neg)
qed

text \<open>
  C4 as stated fails on the pattern \<open>!!rest\<close>: the flag ends set, not unset, and the text
  emitted holds the second \<open>!\<close> as a literal.
\<close>

theorem C4_counterexample:
  "neg (parsePattern ''!!rest'') \<and> out (parsePattern ''!!rest'') = ''^(?s)!rest''"
  by (simp add: glob_eval)

section \<open>Facts about matching\<close>

lemma reach_mem:
  "j \<in> set (reach EmptyMatch s i) \<longleftrightarrow> j = i"
  "j \<in> set (reach NoMatch s i) \<longleftrightarrow> False"
  "j \<in> set (reach (Literal c) s i) \<longleftrightarrow> i < length s \<and> s ! i = c \<and> j = Suc i"
  "j \<in> set (reach (CharClass n cls) s i) \<longleftrightarrow>
     i < length s \<and> inClass cls (s ! i) \<noteq> n \<and> j = Suc i"
  "j \<in> set (reach BeginText s i) \<longleftrightarrow> i = 0 \<and> j = 0"
  "j \<in> set (reach EndText s i) \<longleftrightarrow> i = length s \<and> j = i"
  "j \<in> set (reach (Concat a b) s i) \<longleftrightarrow> (\<exists>k. k \<in> set (reach a s i) \<and> j \<in> set (reach b s k))"
  "j \<in> set (reach (Alternate a b) s i) \<longleftrightarrow> j \<in> set (reach a s i) \<or> j \<in> set (reach b s i)"
  "j \<in> set (reach (Quest a) s i) \<longleftrightarrow> j = i \<or> j \<in> set (reach a s i)"
  "j \<in> set (reach (Capture a) s i) \<longleftrightarrow> j \<in> set (reach a s i)"
  by auto

lemma MatchString_iff:
  "MatchString rx s \<longleftrightarrow> (\<exists>i j. i \<le> length (runes s) \<and> j \<in> set (reach rx (runes s) i))"
proof -
  let ?rs = "runes s"
  have "MatchString rx s \<longleftrightarrow> (\<exists>i \<in> {0 ..< Suc (length ?rs)}. reach rx ?rs i \<noteq> [])"
    by (simp only: MatchString_def Let_def list_ex_iff set_upt)
  also have "\<dots> \<longleftrightarrow> (\<exists>i. i \<le> length ?rs \<and> (\<exists>j. j \<in> set (reach rx ?rs i)))"
    by (simp add: Bex_def less_Suc_eq_le ex_in_conv)
  finally show ?thesis by blast
qed

lemma compile_question:
  "CompileGlob ''?'' =
     Inr \<lparr>pattern = ''?'',
          re = Concat BeginText (Concat (CharClass True [(47, 47)]) EndText),
          negated = False\<rparr>"
proof -
  have p: "out (parsePattern ''?'') = ''^(?s)[^/]''" "err (parsePattern ''?'') = None"
    "neg (parsePattern ''?'') = False"
    by (simp_all add: glob_eval)
  have r: "regexp_Compile ''^(?s)[^/]$'' =
      Inr (Concat BeginText (Concat (CharClass True [(47, 47)]) EndText))"
    by (simp add: regexp_eval rn_def)
  show ?thesis using p r by (simp add: CompileGlob_def EncodeRune_ascii byte_def)
qed

lemma match_question:
  "MatchString (Concat BeginText (Concat (CharClass True [(47, 47)]) EndText)) s \<longleftrightarrow>
     (\<exists>r. runes s = [r] \<and> r \<noteq> 47)"
proof -
  have "MatchString (Concat BeginText (Concat (CharClass True [(47, 47)]) EndText)) s \<longleftrightarrow>
      length (runes s) = 1 \<and> runes s ! 0 \<noteq> 47"
    by (auto simp add: MatchString_iff reach_mem inClass_def)
  also have "\<dots> \<longleftrightarrow> (\<exists>r. runes s = [r] \<and> r \<noteq> 47)"
    by (cases "runes s") auto
  finally show ?thesis .
qed



lemma MatchString_BeginText:
  "MatchString (Concat BeginText x) s \<longleftrightarrow> reach x (runes s) 0 \<noteq> []"
proof -
  have "MatchString (Concat BeginText x) s \<longleftrightarrow> (\<exists>j. j \<in> set (reach x (runes s) 0))"
    by (auto simp add: MatchString_iff reach_mem)
  then show ?thesis by (simp add: ex_in_conv)
qed

text \<open>
  C5 (as amended). The compiled pattern \<open>?\<close> matches every candidate that is exactly one
  code point other than \<open>/\<close>, and rejects every other candidate: the candidate \<open>/\<close>, the
  empty one, and those of two or more code points.
\<close>

theorem C5_question_mark_is_one_rune_but_not_slash:
  "CompileGlob ''?'' =
     Inr \<lparr>pattern = ''?'',
          re = Concat BeginText (Concat (CharClass True [(47, 47)]) EndText),
          negated = False\<rparr> \<and>
   (Match \<lparr>pattern = ''?'',
           re = Concat BeginText (Concat (CharClass True [(47, 47)]) EndText),
           negated = False\<rparr> s
      \<longleftrightarrow> (\<exists>r. runes s = [r] \<and> r \<noteq> rn CHR ''/''))"
  by (simp add: compile_question Match_def match_question rn_def)

text \<open>
  C5 as stated fails on the candidate \<open>/\<close>, which is one code point and is rejected.
\<close>

theorem C5_counterexample:
  "CompileGlob ''?'' =
     Inr \<lparr>pattern = ''?'',
          re = Concat BeginText (Concat (CharClass True [(47, 47)]) EndText),
          negated = False\<rparr> \<and>
   runes ''/'' = [rn CHR ''/''] \<and>
   \<not> Match \<lparr>pattern = ''?'',
             re = Concat BeginText (Concat (CharClass True [(47, 47)]) EndText),
             negated = False\<rparr> ''/''"
proof -
  have "runes ''/'' = [rn CHR ''/'']"
    by (simp add: runes_def decodeAll.simps decode_ascii byte_def)
  then show ?thesis
    by (simp add: compile_question Match_def match_question rn_def)
qed

lemma compile_star_slash:
  "CompileGlob ''*/'' =
     Inr \<lparr>pattern = ''*/'',
          re = Concat BeginText
                 (Concat (Quest (Capture (Concat (Star (CharClass True [(47, 47)])) (Literal 47))))
                    EndText),
          negated = False\<rparr>"
proof -
  have p: "out (parsePattern ''*/'') = ''^(?s)([^/]*/)?''" "err (parsePattern ''*/'') = None"
    "neg (parsePattern ''*/'') = False"
    by (simp_all add: glob_eval)
  have r: "regexp_Compile ''^(?s)([^/]*/)?$'' =
      Inr (Concat BeginText
            (Concat (Quest (Capture (Concat (Star (CharClass True [(47, 47)])) (Literal 47))))
               EndText))"
    by (simp add: regexp_eval rn_def)
  show ?thesis using p r by (simp add: CompileGlob_def EncodeRune_ascii byte_def)
qed

text \<open>
  C7. \<open>MatchInfo\<close> returns \<open>Match(name)\<close>, and for an entry that reports being a directory
  \<open>Match(name)\<close> or \<open>Match(name + "/")\<close>. The pattern \<open>*/\<close> compiles; the matcher rejects a
  non-directory entry named \<open>dir\<close> and accepts a directory entry named \<open>dir\<close>.
\<close>

theorem C7_MatchInfo_tries_the_slash_for_directories:
  "MatchInfo g info =
     (if IsDir info then Match g (Name info) \<or> Match g (Name info @ ''/'')
      else Match g (Name info)) \<and>
   CompileGlob ''*/'' =
     Inr \<lparr>pattern = ''*/'',
          re = Concat BeginText
                 (Concat (Quest (Capture (Concat (Star (CharClass True [(47, 47)])) (Literal 47))))
                    EndText),
          negated = False\<rparr> \<and>
   \<not> MatchInfo
       \<lparr>pattern = ''*/'',
        re = Concat BeginText
               (Concat (Quest (Capture (Concat (Star (CharClass True [(47, 47)])) (Literal 47))))
                  EndText),
        negated = False\<rparr>
       \<lparr>Name = ''dir'', IsDir = False\<rparr> \<and>
   MatchInfo
     \<lparr>pattern = ''*/'',
      re = Concat BeginText
             (Concat (Quest (Capture (Concat (Star (CharClass True [(47, 47)])) (Literal 47))))
                EndText),
      negated = False\<rparr>
     \<lparr>Name = ''dir'', IsDir = True\<rparr>"
proof -
  let ?G = "\<lparr>pattern = ''*/'',
      re = Concat BeginText
             (Concat (Quest (Capture (Concat (Star (CharClass True [(47, 47)])) (Literal 47))))
                EndText),
      negated = False\<rparr>"
  have "runes ''dir'' = [100, 105, 114]" "runes ''dir/'' = [100, 105, 114, 47]"
    by (simp_all add: runes_eval)
  then have a: "\<not> Match ?G ''dir''" and b: "Match ?G ''dir/''"
    by (simp_all add: Match_def MatchString_BeginText reach_Star inClass_def)
  show ?thesis
    using a b by (simp add: MatchInfo_def Let_def compile_star_slash)
qed

section \<open>A leading \<open>!\<close> shifts the parse by one byte\<close>

text \<open>
  \<open>sh p\<close> is the parser \<open>p\<close> as it would be on the pattern with a \<open>!\<close> put in front: the
  input and every offset moved by one byte, and the negation flag flipped.
\<close>

definition sh :: "'e globParser \<Rightarrow> 'e globParser" where
  "sh p = p\<lparr>inp := CHR ''!'' # inp p, index := Suc (index p), neg := \<not> neg p,
            err := map_option (\<lambda>e. GlobError (CHR ''!'' # Pattern e) (Suc (Index e)) (Err e)) (err p)\<rparr>"

lemma sh_fields [simp]:
  "inp (sh p) = CHR ''!'' # inp p" "index (sh p) = Suc (index p)" "width (sh p) = width p"
  "neg (sh p) = (\<not> neg p)" "out (sh p) = out p" "choiceNest (sh p) = choiceNest p"
  "err (sh p) = map_option (\<lambda>e. GlobError (CHR ''!'' # Pattern e) (Suc (Index e)) (Err e)) (err p)"
  by (simp_all add: sh_def)

lemma sh_updates [simp]:
  "WriteRune r (sh p) = sh (WriteRune r p)"
  "WriteString s (sh p) = sh (WriteString s p)"
  "(sh p)\<lparr>choiceNest := n\<rparr> = sh (p\<lparr>choiceNest := n\<rparr>)"
  "(sh p)\<lparr>index := Suc m\<rparr> = sh (p\<lparr>index := m\<rparr>)"
  by (simp_all add: sh_def WriteRune_def WriteString_def)

lemma backRune_sh [simp]: "width p \<le> index p \<Longrightarrow> backRune (sh p) = sh (backRune p)"
  by (simp add: sh_def backRune_def)

lemma nextRune_sh: "nextRune (sh p) = (fst (nextRune p), sh (snd (nextRune p)))"
  by (simp add: nextRune_def sh_def Let_def case_prod_beta)

lemma nextRune_width_le: "width (snd (nextRune p)) \<le> index (snd (nextRune p))"
  using nextRune_index_width [of p] by simp

lemma peek_sh: "peek (sh p) = (fst (peek p), sh (snd (peek p)))"
  by (simp add: peek_def case_prod_beta nextRune_sh nextRune_width_le)


lemma nextRune_sh_simps [simp]:
  "fst (nextRune (sh p)) = fst (nextRune p)" "snd (nextRune (sh p)) = sh (snd (nextRune p))"
  "fst (peek (sh p)) = fst (peek p)" "snd (peek (sh p)) = sh (snd (peek p))"
  by (simp_all add: nextRune_sh peek_sh del: peek_fst)

lemma parseMain_sh:
  assumes "index p = 0 \<longrightarrow> fst (nextRune p) \<noteq> rn CHR ''!''"
  shows "parseMain (sh p) = (fst (parseMain p), sh (snd (parseMain p)))"
proof -
  let ?q = "snd (nextRune p)"
  have i: "int (index ?q) - int (width ?q) = int (index p)"
    by (rule nextRune_index_width_int)
  have j: "int (Suc (index ?q)) - int (width ?q) \<noteq> 0"
    using i by simp
  have j': "1 + int (index ?q) - int (width ?q) \<noteq> 0"
    using i by simp
  have k: "fst (nextRune p) = rn CHR ''!'' \<Longrightarrow> int (index ?q) - int (width ?q) \<noteq> 0"
    using i assms by simp
  show ?thesis
    using j j' k
    by (simp add: parseMain_def Let_def case_prod_beta)
qed


lemma sh_err_update:
  "(sh p)\<lparr>err := Some (GlobError (CHR ''!'' # pat) (Suc i) c)\<rparr> =
     sh (p\<lparr>err := Some (GlobError pat i c)\<rparr>)"
  by (simp add: sh_def)

lemma classStep_sh:
  "classStep (Suc start) (sh p) =
     (case classStep start p of Inl res \<Rightarrow> Inl (fst res, sh (snd res)) | Inr q \<Rightarrow> Inr (sh q))"
  by (simp add: classStep_def Let_def sh_err_update)

lemma parseClassLoop_sh:
  "parseClassLoop (Suc start) (sh p) =
     (fst (parseClassLoop start p), sh (snd (parseClassLoop start p)))"
proof (induction start p rule: parseClassLoop.induct)
  case (1 start p0)
  show ?case
  proof (cases "classStep start p0")
    case (Inl res)
    then show ?thesis
      by (simp add: parseClassLoop.simps [of start p0] parseClassLoop.simps [of "Suc start" "sh p0"]
          classStep_sh)
  next
    case (Inr q)
    then show ?thesis
      using 1 [of q]
      by (simp add: parseClassLoop.simps [of start p0] parseClassLoop.simps [of "Suc start" "sh p0"]
          classStep_sh)
  qed
qed

lemma applyState_sh:
  assumes "index p = 0 \<longrightarrow> fst (nextRune p) \<noteq> rn CHR ''!''"
  shows "applyState f (sh p) = (fst (applyState f p), sh (snd (applyState f p)))"
  using assms
  by (cases f) (simp_all add: applyState_def parseMain_sh parseClass_def parseClassLoop_sh)

lemma run_sh:
  "(index p = 0 \<longrightarrow> fst (nextRune p) \<noteq> rn CHR ''!'') \<Longrightarrow> run st (sh p) = sh (run st p)"
proof (induction st p rule: run.induct)
  case (1 p)
  show ?case by (simp add: run.simps)
next
  case (2 f p)
  have a: "applyState f (sh p) = (fst (applyState f p), sh (snd (applyState f p)))"
    using "2.prems" by (rule applyState_sh)
  show ?case
  proof (cases "fst (applyState f p)")
    case None
    then show ?thesis using a by (simp add: run.simps)
  next
    case (Some g)
    then have "0 < index (snd (applyState f p))"
      using applyState_progress [of f p] by simp
    then have "run (fst (applyState f p)) (sh (snd (applyState f p))) =
        sh (run (fst (applyState f p)) (snd (applyState f p)))"
      using "2.IH" by simp
    then show ?thesis using a by (simp add: run.simps)
  qed
qed

lemma nextRune_width_irrelevant: "nextRune (p\<lparr>width := w\<rparr>) = nextRune p"
  by (simp add: nextRune_def Let_def case_prod_beta)

lemma classStep_width_irrelevant: "classStep start (p\<lparr>width := w\<rparr>) = classStep start p"
  by (simp add: classStep_def nextRune_width_irrelevant)

lemma parseClassLoop_width_irrelevant:
  "parseClassLoop start (p\<lparr>width := w\<rparr>) = parseClassLoop start p"
  by (simp add: parseClassLoop.simps [of start "p\<lparr>width := w\<rparr>"]
      parseClassLoop.simps [of start p] classStep_width_irrelevant)

lemma applyState_width_irrelevant: "applyState f (p\<lparr>width := w\<rparr>) = applyState f p"
proof (cases f)
  case ParseMain
  then show ?thesis
    by (simp add: applyState_def parseMain_def nextRune_width_irrelevant)
next
  case ParseClass
  have wr: "WriteRune r (p\<lparr>width := w\<rparr>) = (WriteRune r p)\<lparr>width := w\<rparr>" for r
    by (simp add: WriteRune_def)
  show ?thesis
    using ParseClass
    by (simp add: applyState_def parseClass_def wr parseClassLoop_width_irrelevant)
qed

text \<open>The parse of \<open>!\<close> followed by \<open>pat\<close> is the shifted parse of \<open>pat\<close>.\<close>

lemma parsePattern_bang:
  assumes "take 1 pat \<noteq> ''!''"
  shows "parsePattern (CHR ''!'' # pat) = sh (parsePattern pat)"
proof -
  have first: "applyState ParseMain (initial (CHR ''!'' # pat)) =
      (Some ParseMain, (sh (initial pat))\<lparr>width := 1\<rparr>)"
    by (simp add: initial_def applyState_def parseMain_def nextRune_def WriteRune_def
      WriteString_def decode_ascii EncodeRune_ascii byte_def Let_def sh_def)
  have c: "index (initial pat) = 0 \<longrightarrow> fst (nextRune (initial pat)) \<noteq> rn CHR ''!''"
    using assms nextRune_rn_iff [of "CHR ''!''" "initial pat"] by (simp add: byte_def)
  have "parsePattern (CHR ''!'' # pat) = run (Some ParseMain) ((sh (initial pat))\<lparr>width := 1\<rparr>)"
    unfolding parsePattern_def by (subst run.simps) (simp only: first fst_conv snd_conv)
  also have "\<dots> = run (Some ParseMain) (sh (initial pat))"
    by (simp only: run.simps(2) [of ParseMain "(sh (initial pat))\<lparr>width := 1\<rparr>"]
        run.simps(2) [of ParseMain "sh (initial pat)"] applyState_width_irrelevant)
  also have "\<dots> = sh (run (Some ParseMain) (initial pat))"
    using c by (rule run_sh)
  finally show ?thesis by (simp add: parsePattern_def)
qed


text \<open>
  C8. For every pattern \<open>p\<close> that does not begin with \<open>!\<close>: if \<open>p\<close> does not compile,
  neither does \<open>!\<close> followed by \<open>p\<close>; if \<open>p\<close> compiles to a matcher \<open>g\<close>, then \<open>!\<close> followed
  by \<open>p\<close> compiles to the same matcher but for the text of the pattern and the negation
  flag, which is set where that of \<open>g\<close> is not, and \<open>Match\<close> gives the same result on every
  candidate: the flag is not applied inside \<open>Match\<close>.
\<close>

theorem C8_leading_bang_changes_only_the_flag:
  assumes "take 1 p \<noteq> ''!''"
  shows "case CompileGlob p of
           Inl e \<Rightarrow> isl (CompileGlob (CHR ''!'' # p))
         | Inr g \<Rightarrow>
             CompileGlob (CHR ''!'' # p) = Inr (g\<lparr>pattern := CHR ''!'' # p, negated := True\<rparr>) \<and>
             \<not> negated g \<and>
             Match (g\<lparr>pattern := CHR ''!'' # p, negated := True\<rparr>) s = Match g s"
proof -
  have a: "parsePattern (CHR ''!'' # p) = sh (parsePattern p)"
    using assms by (rule parsePattern_bang)
  have n: "\<not> neg (parsePattern p)"
    using assms by (simp add: parsePattern_neg)
  show ?thesis
    using n
    by (auto simp add: CompileGlob_def a Let_def Match_def split: option.splits sum.splits)
qed

theorem C8_witness:
  "take 1 ''a'' \<noteq> ''!'' \<and>
   CompileGlob ''a'' = Inr \<lparr>pattern = ''a'', re = Concat BeginText (Concat (Literal 97) EndText),
                             negated = False\<rparr> \<and>
   CompileGlob ''!a'' = Inr \<lparr>pattern = ''!a'', re = Concat BeginText (Concat (Literal 97) EndText),
                              negated = True\<rparr> \<and>
   Match \<lparr>pattern = ''!a'', re = Concat BeginText (Concat (Literal 97) EndText), negated = True\<rparr> ''a''
     = Match \<lparr>pattern = ''a'', re = Concat BeginText (Concat (Literal 97) EndText),
              negated = False\<rparr> ''a''"
proof -
  have h: "take 1 ''a'' \<noteq> ''!''" by simp
  have p: "out (parsePattern ''a'') = ''^(?s)a''" "err (parsePattern ''a'') = None"
    "neg (parsePattern ''a'') = False"
    by (simp_all add: glob_eval)
  have r: "regexp_Compile ''^(?s)a$'' = Inr (Concat BeginText (Concat (Literal 97) EndText))"
    by (simp add: regexp_eval rn_def)
  have c: "CompileGlob ''a'' =
      Inr \<lparr>pattern = ''a'', re = Concat BeginText (Concat (Literal 97) EndText), negated = False\<rparr>"
    using p r by (simp add: CompileGlob_def EncodeRune_ascii byte_def)
  show ?thesis
    using C8_leading_bang_changes_only_the_flag [OF h, of "''a''"] h
    by (simp add: c)
qed

section \<open>Anchors\<close>

text \<open>
  The words of C2: the compiled expression matches the entire candidate, from its first
  rune to its end.
\<close>

definition matchesWhole :: "regex \<Rightarrow> string \<Rightarrow> bool" where
  "matchesWhole rx s \<longleftrightarrow> length (runes s) \<in> set (reach rx (runes s) 0)"

text \<open>
  C2, on the code. \<open>parseMain\<close> writes the character after a backslash into the expression
  as it is, and a backslash that ends the pattern as it is too. On the pattern \<open>a\|b\<close> the
  text handed to the engine is \<open>^(?s)a|b$\<close>, an alternation of \<open>^a\<close> and \<open>b$\<close>: \<open>Match\<close>
  accepts the candidate \<open>ax\<close> although the expression matches only its first rune. On the
  pattern \<open>a\\<close> the text is \<open>^(?s)a\$\<close>, whose last two bytes are an escaped dollar and not
  the end anchor: \<open>Match\<close> accepts the candidate \<open>a$x\<close>, of which the expression matches the
  first two runes.
\<close>

theorem C2_escaped_character_breaks_the_anchors:
  "out (WriteRune (rn CHR ''$'') (parsePattern [CHR ''a'', CHR 0x5C, CHR ''|'', CHR ''b''])) =
     ''^(?s)a|b$'' \<and>
   CompileGlob [CHR ''a'', CHR 0x5C, CHR ''|'', CHR ''b''] =
     Inr \<lparr>pattern = [CHR ''a'', CHR 0x5C, CHR ''|'', CHR ''b''],
          re = Alternate (Concat BeginText (Literal 97)) (Concat (Literal 98) EndText),
          negated = False\<rparr> \<and>
   Match \<lparr>pattern = [CHR ''a'', CHR 0x5C, CHR ''|'', CHR ''b''],
          re = Alternate (Concat BeginText (Literal 97)) (Concat (Literal 98) EndText),
          negated = False\<rparr> ''ax'' \<and>
   \<not> matchesWhole (Alternate (Concat BeginText (Literal 97)) (Concat (Literal 98) EndText)) ''ax'' \<and>
   out (WriteRune (rn CHR ''$'') (parsePattern [CHR ''a'', CHR 0x5C])) =
     [CHR ''^'', CHR ''('', CHR ''?'', CHR ''s'', CHR '')'', CHR ''a'', CHR 0x5C, CHR ''$''] \<and>
   CompileGlob [CHR ''a'', CHR 0x5C] =
     Inr \<lparr>pattern = [CHR ''a'', CHR 0x5C],
          re = Concat BeginText (Concat (Literal 97) (Literal 36)), negated = False\<rparr> \<and>
   Match \<lparr>pattern = [CHR ''a'', CHR 0x5C],
          re = Concat BeginText (Concat (Literal 97) (Literal 36)), negated = False\<rparr> ''a$x'' \<and>
   \<not> matchesWhole (Concat BeginText (Concat (Literal 97) (Literal 36))) ''a$x''"
proof -
  let ?pat = "[CHR ''a'', CHR 0x5C, CHR ''|'', CHR ''b'']"
  let ?alt = "Alternate (Concat BeginText (Literal 97)) (Concat (Literal 98) EndText)"
  have p: "out (parsePattern ?pat) = ''^(?s)a|b''" "err (parsePattern ?pat) = None"
    "neg (parsePattern ?pat) = False"
    by (simp_all add: glob_eval)
  have o: "out (WriteRune (rn CHR ''$'') (parsePattern ?pat)) = ''^(?s)a|b$''"
    using p by (simp add: EncodeRune_ascii byte_def)
  have r: "regexp_Compile ''^(?s)a|b$'' = Inr ?alt"
    by (simp add: regexp_eval rn_def)
  have c: "CompileGlob ?pat = Inr \<lparr>pattern = ?pat, re = ?alt, negated = False\<rparr>"
    using p r by (simp add: CompileGlob_def EncodeRune_ascii byte_def)
  have rs: "runes ''ax'' = [97, 120]" by (simp add: runes_eval)
  have "1 \<in> set (reach ?alt (runes ''ax'') 0)"
    by (simp add: rs)
  then have m: "MatchString ?alt ''ax''"
    unfolding MatchString_iff by (intro exI [of _ 0] exI [of _ 1]) simp
  have w: "\<not> matchesWhole ?alt ''ax''"
    by (simp add: matchesWhole_def rs)
  let ?pat2 = "[CHR ''a'', CHR 0x5C]"
  let ?txt2 = "[CHR ''^'', CHR ''('', CHR ''?'', CHR ''s'', CHR '')'', CHR ''a'', CHR 0x5C, CHR ''$'']"
  let ?lit = "Concat BeginText (Concat (Literal 97) (Literal 36))"
  have p2: "out (parsePattern ?pat2) =
      [CHR ''^'', CHR ''('', CHR ''?'', CHR ''s'', CHR '')'', CHR ''a'', CHR 0x5C]"
    "err (parsePattern ?pat2) = None" "neg (parsePattern ?pat2) = False"
    by (simp_all add: glob_eval)
  have o2: "out (WriteRune (rn CHR ''$'') (parsePattern ?pat2)) = ?txt2"
    using p2 by (simp add: EncodeRune_ascii byte_def)
  have r2: "regexp_Compile ?txt2 = Inr ?lit"
    by (simp add: regexp_eval rn_def)
  have c2: "CompileGlob ?pat2 = Inr \<lparr>pattern = ?pat2, re = ?lit, negated = False\<rparr>"
    using p2 r2 by (simp add: CompileGlob_def EncodeRune_ascii byte_def)
  have rs2: "runes ''a$x'' = [97, 36, 120]" by (simp add: runes_eval)
  have m2: "MatchString ?lit ''a$x''"
    by (simp add: MatchString_BeginText rs2)
  have w2: "\<not> matchesWhole ?lit ''a$x''"
    by (simp add: matchesWhole_def rs2)
  show ?thesis
    using o c m w o2 c2 m2 w2 by (simp add: Match_def)
qed

section \<open>Decoding a string that goes on with an ASCII byte\<close>

lemma accept_lo_ge: "128 \<le> accept_lo b"
  by (simp add: accept_lo_def)

lemma decode_append_ascii:
  assumes "xs \<noteq> []" and "byte c < 128"
  shows "DecodeRuneInString (xs @ c # ys) = DecodeRuneInString xs"
proof -
  obtain c0 t where xs: "xs = c0 # t" using assms(1) by (cases xs) auto
  have lo: "byte c < accept_lo (byte c0)" using assms(2) accept_lo_ge [of "byte c0"] by linarith
  consider "rune_size (byte c0) = 1" | "rune_size (byte c0) = 2"
    | "rune_size (byte c0) = 3" | "rune_size (byte c0) = 4"
    using rune_size_cases [of "byte c0"] by blast
  then show ?thesis
  proof cases
    case 1
    then show ?thesis by (simp add: xs DecodeRuneInString_def Let_def)
  next
    case 2
    then show ?thesis
      using lo by (cases t) (simp_all add: xs DecodeRuneInString_def Let_def)
  next
    case 3
    show ?thesis
    proof (cases t)
      case Nil
      then show ?thesis using 3 lo by (simp add: xs DecodeRuneInString_def Let_def)
    next
      case (Cons c1 t1)
      then show ?thesis
        using 3 assms(2) by (cases t1) (simp_all add: xs DecodeRuneInString_def Let_def)
    qed
  next
    case 4
    show ?thesis
    proof (cases t)
      case Nil
      then show ?thesis using 4 lo by (simp add: xs DecodeRuneInString_def Let_def)
    next
      case (Cons c1 t1)
      note t = Cons
      show ?thesis
      proof (cases t1)
        case Nil
        then show ?thesis
          using 4 assms(2) t by (simp add: xs DecodeRuneInString_def Let_def)
      next
        case (Cons c2 t2)
        then show ?thesis
          using 4 assms(2) t by (cases t2) (simp_all add: xs DecodeRuneInString_def Let_def)
      qed
    qed
  qed
qed

lemma decodeAll_append_ascii:
  "byte c < 128 \<Longrightarrow> decodeAll (xs @ c # ys) = decodeAll xs @ decodeAll (c # ys)"
proof (induction xs rule: decodeAll.induct)
  case (1 s)
  show ?case
  proof (cases "s = []")
    case True
    then show ?thesis by (simp add: decodeAll.simps [of "[]"])
  next
    case False
    let ?w = "snd (DecodeRuneInString s)"
    have d: "DecodeRuneInString (s @ c # ys) = DecodeRuneInString s"
      using False "1.prems" by (rule decode_append_ascii)
    have w: "?w \<le> length s" by (rule decode_width_le)
    have "decodeAll (s @ c # ys) =
        DecodeRuneInString s # decodeAll (drop ?w s @ c # ys)"
      using w by (subst decodeAll.simps) (simp add: d)
    also have "\<dots> = DecodeRuneInString s # (decodeAll (drop ?w s) @ decodeAll (c # ys))"
      using "1.IH" [OF False "1.prems"] by simp
    also have "\<dots> = decodeAll s @ decodeAll (c # ys)"
      using False by (subst (3) decodeAll.simps) simp
    finally show ?thesis .
  qed
qed

lemma runes_append_ascii:
  "byte c < 128 \<Longrightarrow> runes (xs @ c # ys) = runes xs @ runes (c # ys)"
  by (simp add: runes_def decodeAll_append_ascii)

lemma runes_no_nul: "CHR 0x00 \<notin> set s \<Longrightarrow> 0 \<notin> set (runes s)"
  unfolding runes_def
proof (induction s rule: decodeAll.induct)
  case (1 s)
  show ?case
  proof (cases "s = []")
    case True
    then show ?thesis by (simp add: decodeAll.simps [of "[]"])
  next
    case False
    have a: "fst (DecodeRuneInString s) \<noteq> 0"
      using decode_eof_iff [of s] "1.prems" False by (cases s) (auto simp add: eof_def)
    have "set (drop (snd (DecodeRuneInString s)) s) \<subseteq> set s" by (rule set_drop_subset)
    then have "CHR 0x00 \<notin> set (drop (snd (DecodeRuneInString s)) s)" using "1.prems" by blast
    then have b: "0 \<notin> set (map fst (decodeAll (drop (snd (DecodeRuneInString s)) s)))"
      using "1.IH" [OF False] by simp
    show ?thesis
      using a b False by (subst decodeAll.simps) simp
  qed
qed

section \<open>Globstar before a separator\<close>

lemma reach_Star_class:
  "i \<le> j \<Longrightarrow> j \<le> length s \<Longrightarrow> (\<forall>k. i \<le> k \<and> k < j \<longrightarrow> inClass cls (s ! k) \<noteq> n) \<Longrightarrow>
     j \<in> set (reach (Star (CharClass n cls)) s i)"
proof (induction "j - i" arbitrary: i)
  case 0
  then have "j = i" by simp
  then show ?case by (subst reach_Star) simp
next
  case (Suc d)
  have lt: "i < j" using Suc.hyps(2) by simp
  have d: "d = j - Suc i" using Suc.hyps(2) by simp
  have le: "Suc i \<le> j" using lt by simp
  have cl: "\<forall>k. Suc i \<le> k \<and> k < j \<longrightarrow> inClass cls (s ! k) \<noteq> n" using Suc.prems(3) by simp
  have ih: "j \<in> set (reach (Star (CharClass n cls)) s (Suc i))"
    using Suc.hyps(1) [OF d le Suc.prems(2) cl] .
  have here: "i < length s" "inClass cls (s ! i) \<noteq> n"
    using lt Suc.prems(2) Suc.prems(3) by simp_all
  have "reach (Star (CharClass n cls)) s i = i # reach (Star (CharClass n cls)) s (Suc i)"
    using here by (subst reach_Star) (simp add: Suc_le_eq)
  then show ?case using ih by simp
qed

definition globstarFile :: regex where
  "globstarFile =
     Concat BeginText
       (Concat (Capture (Alternate EmptyMatch (Concat (Star (CharClass True [(0, 0)])) (Literal 47))))
          (Concat (Literal 102) (Concat (Literal 105) (Concat (Literal 108)
             (Concat (Literal 101) EndText)))))"

lemma compile_globstar_file:
  "CompileGlob ''**/file'' = Inr \<lparr>pattern = ''**/file'', re = globstarFile, negated = False\<rparr>"
proof -
  have p: "out (parsePattern ''**/file'') =
      [CHR ''^'', CHR ''('', CHR ''?'', CHR ''s'', CHR '')'', CHR ''('', CHR ''|'', CHR ''['',
       CHR ''^'', CHR 0x5C, CHR ''0'', CHR '']'', CHR ''*'', CHR ''/'', CHR '')'',
       CHR ''f'', CHR ''i'', CHR ''l'', CHR ''e'']"
    "err (parsePattern ''**/file'') = None" "neg (parsePattern ''**/file'') = False"
    by (simp_all add: glob_eval)
  have r: "regexp_Compile
      [CHR ''^'', CHR ''('', CHR ''?'', CHR ''s'', CHR '')'', CHR ''('', CHR ''|'', CHR ''['',
       CHR ''^'', CHR 0x5C, CHR ''0'', CHR '']'', CHR ''*'', CHR ''/'', CHR '')'',
       CHR ''f'', CHR ''i'', CHR ''l'', CHR ''e'', CHR ''$''] = Inr globstarFile"
    by (simp add: regexp_eval rn_def globstarFile_def)
  show ?thesis
    using p r by (simp add: CompileGlob_def EncodeRune_ascii byte_def)
qed

lemma runes_file: "runes ''file'' = [102, 105, 108, 101]" "runes ''/file'' = [47, 102, 105, 108, 101]"
  by (simp_all add: runes_eval)

lemma match_file: "MatchString globstarFile ''file''"
  by (simp add: MatchString_BeginText globstarFile_def runes_file)

lemma match_prefix_slash_file:
  assumes "CHR 0x00 \<notin> set pre"
  shows "MatchString globstarFile (pre @ ''/file'')"
proof -
  let ?a = "runes pre"
  let ?n = "length ?a"
  let ?rs = "?a @ [47, 102, 105, 108, 101]"
  have rs: "runes (pre @ ''/file'') = ?rs"
    using runes_append_ascii [of "CHR ''/''" pre "''file''"] by (simp add: runes_file byte_def)
  have nz: "k < ?n \<Longrightarrow> ?a ! k \<noteq> 0" for k
    using runes_no_nul [OF assms] nth_mem [of k ?a] by metis
  have "\<forall>k. 0 \<le> k \<and> k < ?n \<longrightarrow> inClass [(0, 0)] (?rs ! k) \<noteq> True"
    using nz by (simp add: inClass_def nth_append)
  then have st: "?n \<in> set (reach (Star (CharClass True [(0, 0)])) ?rs 0)"
    by (intro reach_Star_class) simp_all
  have sl: "Suc ?n \<in> set (reach (Literal 47) ?rs ?n)"
    by (simp add: nth_append)
  have cat: "Suc ?n \<in> set (reach (Concat (Star (CharClass True [(0, 0)])) (Literal 47)) ?rs 0)"
    using st sl reach_mem(7) [of "Suc ?n" "Star (CharClass True [(0, 0)])" "Literal 47" ?rs 0]
    by blast
  have grp: "Suc ?n \<in> set (reach (Capture (Alternate EmptyMatch
      (Concat (Star (CharClass True [(0, 0)])) (Literal 47)))) ?rs 0)"
    using cat by (simp only: reach_mem(10) reach_mem(8)) blast
  have e: "length ?rs \<in> set (reach EndText ?rs (length ?rs))"
    by (simp only: reach_mem(6))
  have l4: "length ?rs \<in> set (reach (Concat (Literal 101) EndText) ?rs (Suc (Suc (Suc (Suc ?n)))))"
    by (simp add: nth_append)
  have l3: "length ?rs \<in> set (reach (Concat (Literal 108) (Concat (Literal 101) EndText)) ?rs
      (Suc (Suc (Suc ?n))))"
    using l4 by (simp add: nth_append)
  have l2: "length ?rs \<in> set (reach (Concat (Literal 105) (Concat (Literal 108)
      (Concat (Literal 101) EndText))) ?rs (Suc (Suc ?n)))"
    using l3 by (simp add: nth_append)
  have tl: "length ?rs \<in> set (reach (Concat (Literal 102) (Concat (Literal 105) (Concat (Literal 108)
             (Concat (Literal 101) EndText)))) ?rs (Suc ?n))"
    using l2 by (simp add: nth_append)
  have "length ?rs \<in> set (reach (Concat (Capture (Alternate EmptyMatch
      (Concat (Star (CharClass True [(0, 0)])) (Literal 47))))
          (Concat (Literal 102) (Concat (Literal 105) (Concat (Literal 108)
             (Concat (Literal 101) EndText))))) ?rs 0)"
    using grp tl
      reach_mem(7) [of "length ?rs" "Capture (Alternate EmptyMatch
      (Concat (Star (CharClass True [(0, 0)])) (Literal 47)))" "Concat (Literal 102) (Concat (Literal 105) (Concat (Literal 108)
             (Concat (Literal 101) EndText)))" ?rs 0]
    by blast
  then have "reach (Concat (Capture (Alternate EmptyMatch
      (Concat (Star (CharClass True [(0, 0)])) (Literal 47))))
          (Concat (Literal 102) (Concat (Literal 105) (Concat (Literal 108)
             (Concat (Literal 101) EndText))))) ?rs 0 \<noteq> []"
    by auto
  then show ?thesis
    unfolding globstarFile_def MatchString_BeginText rs .
qed

lemma components_prefix:
  "comps \<noteq> [] \<Longrightarrow>
     \<exists>pre. concat (map (\<lambda>c. c @ ''/'') comps) = pre @ ''/'' \<and>
       set pre \<subseteq> \<Union> (set ` set comps) \<union> {CHR ''/''}"
proof (induction comps rule: rev_induct)
  case Nil
  then show ?case by simp
next
  case (snoc c cs)
  have "concat (map (\<lambda>c. c @ ''/'') (cs @ [c])) = (concat (map (\<lambda>c. c @ ''/'') cs) @ c) @ ''/''"
    by simp
  moreover have "set (concat (map (\<lambda>c. c @ ''/'') cs) @ c) \<subseteq>
      \<Union> (set ` set (cs @ [c])) \<union> {CHR ''/''}"
    by auto
  ultimately show ?case by blast
qed


text \<open>
  C1 (as amended). The pattern \<open>**/file\<close> compiles, and its \<open>Match\<close> accepts every candidate
  made of zero or more slash-terminated components that hold no NUL byte, followed by
  \<open>file\<close>; among them \<open>file\<close>, \<open>/file\<close>, \<open>y/file\<close> and \<open>x/y/file\<close>.
\<close>

theorem C1_globstar_slash_matches_leading_components:
  assumes "\<forall>c \<in> set comps. CHR 0x00 \<notin> set c"
  shows "CompileGlob ''**/file'' =
           Inr \<lparr>pattern = ''**/file'', re = globstarFile, negated = False\<rparr> \<and>
         Match \<lparr>pattern = ''**/file'', re = globstarFile, negated = False\<rparr>
           (concat (map (\<lambda>c. c @ ''/'') comps) @ ''file'')"
proof (cases "comps = []")
  case True
  then show ?thesis by (simp add: compile_globstar_file Match_def match_file)
next
  case False
  then obtain pre where pre: "concat (map (\<lambda>c. c @ ''/'') comps) = pre @ ''/''"
    "set pre \<subseteq> \<Union> (set ` set comps) \<union> {CHR ''/''}"
    using components_prefix by blast
  have "CHR 0x00 \<notin> set pre" using pre(2) assms by auto
  then have "MatchString globstarFile (pre @ ''/file'')" by (rule match_prefix_slash_file)
  then show ?thesis by (simp add: compile_globstar_file Match_def pre(1))
qed

theorem C1_witness:
  "CHR 0x00 \<notin> set ''x'' \<and> CHR 0x00 \<notin> set ''y'' \<and>
   CompileGlob ''**/file'' = Inr \<lparr>pattern = ''**/file'', re = globstarFile, negated = False\<rparr> \<and>
   Match \<lparr>pattern = ''**/file'', re = globstarFile, negated = False\<rparr> ''file'' \<and>
   Match \<lparr>pattern = ''**/file'', re = globstarFile, negated = False\<rparr> ''/file'' \<and>
   Match \<lparr>pattern = ''**/file'', re = globstarFile, negated = False\<rparr> ''y/file'' \<and>
   Match \<lparr>pattern = ''**/file'', re = globstarFile, negated = False\<rparr> ''x/y/file''"
proof -
  have h0: "\<forall>c \<in> set ([] :: string list). CHR 0x00 \<notin> set c" by simp
  have h1: "\<forall>c \<in> set [[]]. CHR 0x00 \<notin> set c" by simp
  have h2: "\<forall>c \<in> set [''y'']. CHR 0x00 \<notin> set c" by simp
  have h3: "\<forall>c \<in> set [''x'', ''y'']. CHR 0x00 \<notin> set c" by simp
  show ?thesis
    using C1_globstar_slash_matches_leading_components [OF h0]
      C1_globstar_slash_matches_leading_components [OF h1]
      C1_globstar_slash_matches_leading_components [OF h2]
      C1_globstar_slash_matches_leading_components [OF h3]
    by simp
qed

text \<open>
  C1 as stated fails on the candidate made of the one component NUL, its slash and
  \<open>file\<close>: the emitted class \<open>[^\0]\<close> does not match the NUL.
\<close>

theorem C1_counterexample:
  "CompileGlob ''**/file'' = Inr \<lparr>pattern = ''**/file'', re = globstarFile, negated = False\<rparr> \<and>
   \<not> Match \<lparr>pattern = ''**/file'', re = globstarFile, negated = False\<rparr>
       (concat (map (\<lambda>c. c @ ''/'') [[CHR 0x00]]) @ ''file'')"
proof -
  have "runes (CHR 0x00 # ''/file'') = [0, 47, 102, 105, 108, 101]"
    by (simp add: runes_eval)
  then have "\<not> MatchString globstarFile (CHR 0x00 # ''/file'')"
    by (simp add: MatchString_BeginText globstarFile_def reach_Star inClass_def)
  then show ?thesis by (simp add: compile_globstar_file Match_def)
qed

section \<open>The states the loop passes through\<close>

text \<open>
  \<open>reaches p0 f p\<close>: the loop of \<open>CompileGlob\<close>, started in the main state on \<open>p0\<close>, comes to
  call the parse function \<open>f\<close> on the parser \<open>p\<close>.
\<close>

inductive reaches :: "'e globParser \<Rightarrow> parseFunc \<Rightarrow> 'e globParser \<Rightarrow> bool" for p0 where
  start: "reaches p0 ParseMain p0"
| step: "reaches p0 f p \<Longrightarrow> applyState f p = (Some g, q) \<Longrightarrow> reaches p0 g q"

lemma reaches_run: "reaches p0 f p \<Longrightarrow> run (Some ParseMain) p0 = run (Some f) p"
proof (induction rule: reaches.induct)
  case start
  show ?case by simp
next
  case (step f p g q)
  then show ?case by (simp add: run.simps(2) [of f p])
qed

lemma nextRune_index_le:
  "index p \<le> length (inp p) \<Longrightarrow> index (snd (nextRune p)) \<le> length (inp p)"
  using decode_width_le [of "drop (index p) (inp p)"]
  by (auto simp add: nextRune_def Let_def case_prod_beta)

lemma HasPrefix_length: "HasPrefix (drop i s) ''*/'' \<Longrightarrow> i + 2 \<le> length s"
proof -
  assume "HasPrefix (drop i s) ''*/''"
  then have e: "take (length ''*/'') (drop i s) = ''*/''" unfolding HasPrefix_def .
  have "length (take (length ''*/'') (drop i s)) = length ''*/''" by (simp only: e)
  then show ?thesis by (simp add: min_def split: if_splits)
qed

lemma parseMain_index_le:
  assumes "index p \<le> length (inp p)"
  shows "index (snd (parseMain p)) \<le> length (inp p)"
proof -
  let ?q = "snd (nextRune p)"
  have a: "index ?q \<le> length (inp p)" using assms by (rule nextRune_index_le)
  have b: "index (snd (nextRune ?q)) \<le> length (inp p)"
    using nextRune_index_le [of ?q] a by simp
  have c: "index (snd (nextRune (WriteString s (snd (peek ?q))))) \<le> length (inp p)" for s
    using nextRune_index_le [of "WriteString s (snd (peek ?q))"] a by simp
  have d: "HasPrefix (drop i (inp p)) ''*/'' \<Longrightarrow> Suc (Suc i) \<le> length (inp p)" for i
    using HasPrefix_length [of i "inp p"] by simp
  show ?thesis
    using a b c d by (simp add: parseMain_def Let_def case_prod_beta)
qed

lemma classStep_index_le:
  assumes "index p \<le> length (inp p)"
  shows "classStep start p = Inr q \<Longrightarrow> index q \<le> length (inp p)"
    and "classStep start p = Inl (st, q) \<Longrightarrow> index q \<le> length (inp p)"
proof -
  let ?q = "snd (nextRune p)"
  have a: "index ?q \<le> length (inp p)" using assms by (rule nextRune_index_le)
  have b: "index (snd (nextRune ?q)) \<le> length (inp p)"
    using nextRune_index_le [of ?q] a by simp
  show "classStep start p = Inr q \<Longrightarrow> index q \<le> length (inp p)"
    using a b by (auto simp add: classStep_def Let_def split: if_splits)
  show "classStep start p = Inl (st, q) \<Longrightarrow> index q \<le> length (inp p)"
    using a b by (auto simp add: classStep_def Let_def split: if_splits)
qed

lemma parseClassLoop_index_le:
  "index p \<le> length (inp p) \<Longrightarrow> index (snd (parseClassLoop start p)) \<le> length (inp p)"
proof (induction start p rule: parseClassLoop.induct)
  case (1 start p0)
  show ?case
  proof (cases "classStep start p0")
    case (Inl res)
    then show ?thesis
      using classStep_index_le(2) [OF "1.prems", of start "fst res" "snd res"]
      by (simp add: parseClassLoop.simps [of start p0])
  next
    case (Inr q)
    have "index q \<le> length (inp q)"
      using classStep_index_le(1) [OF "1.prems" Inr] classStep_Inr [OF Inr] by simp
    then show ?thesis
      using "1.IH" [OF Inr] classStep_Inr [OF Inr] Inr
      by (simp add: parseClassLoop.simps [of start p0])
  qed
qed

lemma applyState_index_le:
  "index p \<le> length (inp p) \<Longrightarrow> index (snd (applyState f p)) \<le> length (inp p)"
  using parseMain_index_le [of p] parseClassLoop_index_le [of "WriteRune (rn CHR ''['') p" "index p"]
  by (cases f) (simp_all add: applyState_def parseClass_def)

lemma reaches_invariant:
  "reaches p0 f p \<Longrightarrow> index p0 \<le> length (inp p0) \<Longrightarrow>
     inp p = inp p0 \<and> index p \<le> length (inp p0)"
proof (induction rule: reaches.induct)
  case start
  then show ?case by simp
next
  case (step f p g q)
  have a: "snd (applyState f p) = q" using step.hyps(2) by simp
  have i: "inp p = inp p0" "index p \<le> length (inp p0)" using step.IH step.prems by simp_all
  have "inp q = inp p" using applyState_inp [of f p] unfolding a .
  moreover have "index q \<le> length (inp p)"
    using applyState_index_le [of p f] i unfolding a by simp
  ultimately show ?case using i by simp
qed

text \<open>The class loop that ends without a closing bracket, on an input without NUL.\<close>

lemma classStep_None:
  assumes "CHR 0x00 \<notin> set (inp p)" and "index p \<le> length (inp p)"
    and "classStep start p = Inl (None, q)"
  shows "q = (snd (nextRune p))\<lparr>err := Some (GlobError (inp p) (length (inp p)) ErrUnterminatedClass)\<rparr>"
proof -
  have e: "fst (nextRune p) = eof"
    using assms(3) by (auto simp add: classStep_def Let_def split: if_splits)
  have "take 1 (drop (index p) (inp p)) \<noteq> [CHR 0x00]"
  proof
    assume "take 1 (drop (index p) (inp p)) = [CHR 0x00]"
    then have "CHR 0x00 \<in> set (take 1 (drop (index p) (inp p)))" by simp
    then have "CHR 0x00 \<in> set (inp p)"
      using set_take_subset set_drop_subset by fast
    then show False using assms(1) by simp
  qed
  then have "drop (index p) (inp p) = []" using e nextRune_eof_iff [of p] by simp
  then have "index (snd (nextRune p)) = length (inp p)"
    using assms(2) by (simp add: nextRune_def Let_def)
  then show ?thesis
    using assms(3) e by (simp add: classStep_def Let_def)
qed

lemma parseClassLoop_None:
  "CHR 0x00 \<notin> set (inp p) \<Longrightarrow> index p \<le> length (inp p) \<Longrightarrow>
   fst (parseClassLoop start p) = None \<Longrightarrow>
     err (snd (parseClassLoop start p)) =
       Some (GlobError (inp p) (length (inp p)) ErrUnterminatedClass)"
proof (induction start p rule: parseClassLoop.induct)
  case (1 start p0)
  show ?case
  proof (cases "classStep start p0")
    case (Inl res)
    then have "classStep start p0 = Inl (None, snd res)"
      using "1.prems"(3) by (cases res) (simp add: parseClassLoop.simps [of start p0])
    then have "snd res = (snd (nextRune p0))\<lparr>err :=
        Some (GlobError (inp p0) (length (inp p0)) ErrUnterminatedClass)\<rparr>"
      by (rule classStep_None [OF "1.prems"(1) "1.prems"(2)])
    then have "err (snd res) = Some (GlobError (inp p0) (length (inp p0)) ErrUnterminatedClass)"
      by simp
    then show ?thesis
      using Inl by (simp add: parseClassLoop.simps [of start p0])
  next
    case (Inr q)
    have q: "inp q = inp p0" "index q \<le> length (inp q)"
      using classStep_index_le(1) [OF "1.prems"(2) Inr] classStep_Inr [OF Inr] by simp_all
    have "fst (parseClassLoop start q) = None"
      using "1.prems"(3) Inr by (simp add: parseClassLoop.simps [of start p0])
    then show ?thesis
      using "1.IH" [OF Inr] q "1.prems"(1) Inr
      by (simp add: parseClassLoop.simps [of start p0])
  qed
qed

text \<open>
  Whether the runes that follow an opening \<open>[\<close> close the class: a \<open>]\<close> closes it unless a
  backslash stands before it, and a backslash takes the rune after it, whatever it is.
\<close>

fun closesClass :: "rune list \<Rightarrow> bool" where
  "closesClass [] = False"
| "closesClass [r] = (r = rn CHR '']'')"
| "closesClass (r # n # rs) =
     (if r = rn CHR 0x5C then closesClass rs
      else if r = rn CHR '']'' then True
      else closesClass (n # rs))"

lemma closesClass_other:
  "r \<noteq> rn CHR 0x5C \<Longrightarrow> r \<noteq> rn CHR '']'' \<Longrightarrow> closesClass (r # rs) = closesClass rs"
  by (cases rs) simp_all

lemma closesClass_close: "closesClass (rn CHR '']'' # rs)"
  by (cases rs) (simp_all add: rn_def)

lemma closesClass_escape:
  "closesClass (rn CHR 0x5C # rs) = closesClass (drop 1 rs)"
  by (cases rs) (simp_all add: rn_def)

text \<open>The runes that are left, and what \<open>next\<close> does with the first of them.\<close>

lemma runes_Nil: "runes [] = []"
  by (simp add: runes_def decodeAll.simps)

lemma nextRune_end:
  "drop (index p) (inp p) = [] \<Longrightarrow> fst (nextRune p) = eof \<and> index (snd (nextRune p)) = index p"
  by (simp add: nextRune_def Let_def)

lemma runes_next:
  assumes "drop (index p) (inp p) \<noteq> []"
  shows "runes (drop (index p) (inp p)) =
           fst (DecodeRuneInString (drop (index p) (inp p))) #
           runes (drop (index (snd (nextRune p))) (inp p))"
    and "fst (nextRune p) = fst (DecodeRuneInString (drop (index p) (inp p)))"
proof -
  let ?s = "drop (index p) (inp p)"
  have w: "snd (DecodeRuneInString ?s) \<noteq> 0" using decode_width_pos [of ?s] assms by simp
  have i: "index (snd (nextRune p)) = index p + snd (DecodeRuneInString ?s)"
    using w by (simp add: nextRune_def Let_def case_prod_beta)
  have "runes ?s = fst (DecodeRuneInString ?s) # runes (drop (snd (DecodeRuneInString ?s)) ?s)"
    using assms by (simp add: runes_def decodeAll.simps [of ?s])
  then show "runes ?s = fst (DecodeRuneInString ?s) # runes (drop (index (snd (nextRune p))) (inp p))"
    by (simp add: i add.commute)
  show "fst (nextRune p) = fst (DecodeRuneInString ?s)"
    using w by (simp add: nextRune_def Let_def case_prod_beta)
qed

lemma runes_cases:
  obtains "drop (index p) (inp p) = []" "runes (drop (index p) (inp p)) = []"
      "fst (nextRune p) = eof" "index (snd (nextRune p)) = index p"
  | "runes (drop (index p) (inp p)) =
       fst (nextRune p) # runes (drop (index (snd (nextRune p))) (inp p))"
  using runes_next [of p] nextRune_end [of p] runes_Nil by (cases "drop (index p) (inp p) = []") auto

lemma classStep_unclosed:
  assumes "\<not> closesClass (runes (drop (index p) (inp p)))"
  shows "classStep start p = Inl (st, q) \<Longrightarrow> st = None"
    and "classStep start p = Inr q \<Longrightarrow> \<not> closesClass (runes (drop (index q) (inp q)))"
proof -
  let ?p1 = "snd (nextRune p)"
  let ?p2 = "snd (nextRune ?p1)"
  have k: "inp ?p1 = inp p" "inp ?p2 = inp p" by (simp_all add: nextRune_inp)
  show "classStep start p = Inl (st, q) \<Longrightarrow> st = None"
  proof (cases p rule: runes_cases)
    case 1
    then show "classStep start p = Inl (st, q) \<Longrightarrow> st = None"
      by (simp add: classStep_def Let_def)
  next
    case 2
    then show "classStep start p = Inl (st, q) \<Longrightarrow> st = None"
      using assms closesClass_close
      by (auto simp add: classStep_def Let_def split: if_splits)
  qed
  show "classStep start p = Inr q \<Longrightarrow> \<not> closesClass (runes (drop (index q) (inp q)))"
  proof (cases p rule: runes_cases)
    case 1
    then show "classStep start p = Inr q \<Longrightarrow> \<not> closesClass (runes (drop (index q) (inp q)))"
      by (simp add: classStep_def Let_def)
  next
    case 2
    note r = 2
    assume c: "classStep start p = Inr q"
    show "\<not> closesClass (runes (drop (index q) (inp q)))"
    proof (cases "fst (nextRune p) = rn CHR 0x5C")
      case True
      have u: "\<not> closesClass (drop 1 (runes (drop (index ?p1) (inp p))))"
        using assms r True closesClass_escape by simp
      have q: "index q = index ?p2 \<and> inp q = inp p"
        using c True by (auto simp add: classStep_def Let_def k split: if_splits)
      show ?thesis
      proof (cases ?p1 rule: runes_cases)
        case 1
        then show ?thesis using q by (simp add: k)
      next
        case 2
        then show ?thesis using u q by (simp add: k)
      qed
    next
      case False
      have n: "fst (nextRune p) \<noteq> rn CHR '']''"
        using c by (auto simp add: classStep_def Let_def split: if_splits)
      have q: "index q = index ?p1 \<and> inp q = inp p"
        using c False by (auto simp add: classStep_def Let_def k split: if_splits)
      show ?thesis
        using assms r closesClass_other [OF False n] q by simp
    qed
  qed
qed

lemma parseClassLoop_unclosed:
  "\<not> closesClass (runes (drop (index p) (inp p))) \<Longrightarrow> fst (parseClassLoop start p) = None"
proof (induction start p rule: parseClassLoop.induct)
  case (1 start p0)
  show ?case
  proof (cases "classStep start p0")
    case (Inl res)
    then have "classStep start p0 = Inl (fst res, snd res)" by simp
    then have "fst res = None" using classStep_unclosed(1) [OF "1.prems"] by blast
    then show ?thesis using Inl by (simp add: parseClassLoop.simps [of start p0])
  next
    case (Inr q)
    have "\<not> closesClass (runes (drop (index q) (inp q)))"
      using classStep_unclosed(2) [OF "1.prems" Inr] .
    then show ?thesis
      using "1.IH" [OF Inr] Inr by (simp add: parseClassLoop.simps [of start p0])
  qed
qed

lemma no_bracket_unclosed:
  "rn CHR '']'' \<notin> set rs \<Longrightarrow> \<not> closesClass rs"
  by (induction rs rule: closesClass.induct) auto

text \<open>
  C6 (as amended). For every pattern without a NUL byte: when the parser enters the class
  state (an unescaped \<open>[\<close> has opened a character class) and the runes of the pattern after
  that \<open>[\<close> do not close the class (\<open>closesClass\<close>, read off the pattern text), compilation
  fails with a \<open>GlobError\<close> for this pattern whose cause is the unterminated character class
  and whose \<open>Index\<close> is the byte length of the pattern.
\<close>

theorem C6_unterminated_class_index_is_length:
  assumes "CHR 0x00 \<notin> set pat"
    and "reaches (initial pat) ParseClass p"
    and "\<not> closesClass (runes (drop (index p) pat))"
  shows "CompileGlob pat = Inl (GlobError pat (length pat) ErrUnterminatedClass)"
proof -
  have inv: "inp p = pat" "index p \<le> length pat"
    using reaches_invariant [OF assms(2)] by simp_all
  let ?q = "WriteRune (rn CHR ''['') p"
  have n: "fst (parseClassLoop (index p) ?q) = None"
    using parseClassLoop_unclosed [of ?q "index p"] assms(3) inv by simp
  have "parsePattern pat = run (Some ParseClass) p"
    unfolding parsePattern_def using assms(2) by (rule reaches_run)
  also have "\<dots> = snd (parseClass p)"
    using n by (simp add: run.simps applyState_def parseClass_def)
  finally have "err (parsePattern pat) = err (snd (parseClassLoop (index p) ?q))"
    by (simp add: parseClass_def)
  also have "\<dots> = Some (GlobError pat (length pat) ErrUnterminatedClass)"
    using parseClassLoop_None [of ?q "index p"] assms(1) n inv by simp
  finally show ?thesis by (simp add: CompileGlob_def)
qed

theorem C6_witness:
  "CHR 0x00 \<notin> set ''[abc'' \<and>
   reaches (initial ''[abc'') ParseClass
     \<lparr>inp = ''[abc'', index = 1, width = 1, neg = False, err = None, out = ''^(?s)'',
      choiceNest = 0\<rparr> \<and>
   \<not> closesClass (runes (drop 1 ''[abc'')) \<and>
   CompileGlob ''[abc'' = Inl (GlobError ''[abc'' 4 ErrUnterminatedClass) \<and>
   CHR 0x00 \<notin> set [CHR ''['', CHR 0x5C, CHR '']''] \<and>
   reaches (initial [CHR ''['', CHR 0x5C, CHR '']'']) ParseClass
     \<lparr>inp = [CHR ''['', CHR 0x5C, CHR '']''], index = 1, width = 1, neg = False, err = None,
      out = ''^(?s)'', choiceNest = 0\<rparr> \<and>
   \<not> closesClass (runes (drop 1 [CHR ''['', CHR 0x5C, CHR '']''])) \<and>
   CompileGlob [CHR ''['', CHR 0x5C, CHR '']''] =
     Inl (GlobError [CHR ''['', CHR 0x5C, CHR '']''] 3 ErrUnterminatedClass)"
proof -
  let ?p = "\<lparr>inp = ''[abc'', index = 1, width = 1, neg = False,
             err = None :: syntax_error error option, out = ''^(?s)'', choiceNest = 0\<rparr>"
  have h1: "CHR 0x00 \<notin> set ''[abc''" by simp
  have "applyState ParseMain (initial ''[abc'') = (Some ParseClass, ?p)"
    by (simp add: glob_eval)
  then have h2: "reaches (initial ''[abc'') ParseClass ?p"
    using reaches.step [OF reaches.start] by blast
  have h3: "\<not> closesClass (runes (drop (index ?p) ''[abc''))"
    by (simp add: runes_eval)
  let ?esc = "[CHR ''['', CHR 0x5C, CHR '']'']"
  let ?q = "\<lparr>inp = ?esc, index = 1, width = 1, neg = False,
             err = None :: syntax_error error option, out = ''^(?s)'', choiceNest = 0\<rparr>"
  have k1: "CHR 0x00 \<notin> set ?esc" by simp
  have "applyState ParseMain (initial ?esc) = (Some ParseClass, ?q)"
    by (simp add: glob_eval)
  then have k2: "reaches (initial ?esc) ParseClass ?q"
    using reaches.step [OF reaches.start] by blast
  have k3: "\<not> closesClass (runes (drop (index ?q) ?esc))"
    by (simp add: runes_eval)
  show ?thesis
    using C6_unterminated_class_index_is_length [OF h1 h2 h3] h2 h3
      C6_unterminated_class_index_is_length [OF k1 k2 k3] k2 k3
    by simp
qed

text \<open>
  C6 as stated fails on the pattern \<open>[a\<close>, NUL, \<open>b\<close>: the class is opened, no \<open>]\<close> follows,
  and the error carries the index 3, just after the NUL, while the pattern is 4 bytes long.
\<close>

theorem C6_counterexample:
  "reaches (initial [CHR ''['', CHR ''a'', CHR 0x00, CHR ''b'']) ParseClass
     \<lparr>inp = [CHR ''['', CHR ''a'', CHR 0x00, CHR ''b''], index = 1, width = 1, neg = False,
      err = None, out = ''^(?s)'', choiceNest = 0\<rparr> \<and>
   CHR '']'' \<notin> set [CHR ''['', CHR ''a'', CHR 0x00, CHR ''b''] \<and>
   \<not> closesClass (runes (drop 1 [CHR ''['', CHR ''a'', CHR 0x00, CHR ''b''])) \<and>
   CompileGlob [CHR ''['', CHR ''a'', CHR 0x00, CHR ''b''] =
     Inl (GlobError [CHR ''['', CHR ''a'', CHR 0x00, CHR ''b''] 3 ErrUnterminatedClass) \<and>
   length [CHR ''['', CHR ''a'', CHR 0x00, CHR ''b''] = 4"
proof -
  let ?pat = "[CHR ''['', CHR ''a'', CHR 0x00, CHR ''b'']"
  let ?p = "\<lparr>inp = ?pat, index = 1, width = 1, neg = False,
             err = None :: syntax_error error option, out = ''^(?s)'', choiceNest = 0\<rparr>"
  have "applyState ParseMain (initial ?pat) = (Some ParseClass, ?p)"
    by (simp add: glob_eval)
  then have h2: "reaches (initial ?pat) ParseClass ?p"
    using reaches.step [OF reaches.start] by blast
  have h3: "\<not> closesClass (runes (drop 1 ?pat))"
    by (simp add: runes_eval)
  have "err (parsePattern ?pat) = Some (GlobError ?pat 3 ErrUnterminatedClass)"
    by (simp add: glob_eval)
  then have c: "CompileGlob ?pat = Inl (GlobError ?pat 3 ErrUnterminatedClass)"
    by (simp add: CompileGlob_def)
  show ?thesis using h2 h3 c by simp
qed

section \<open>A NUL read in the main state ends the parse\<close>

text \<open>\<open>tr k p\<close> is the parser \<open>p\<close> on its input cut off after \<open>k\<close> bytes.\<close>

definition tr :: "nat \<Rightarrow> 'e globParser \<Rightarrow> 'e globParser" where
  "tr k p = p\<lparr>inp := take k (inp p)\<rparr>"

lemma tr_fields [simp]:
  "inp (tr k p) = take k (inp p)" "index (tr k p) = index p" "width (tr k p) = width p"
  "neg (tr k p) = neg p" "err (tr k p) = err p" "out (tr k p) = out p"
  "choiceNest (tr k p) = choiceNest p"
  by (simp_all add: tr_def)

lemma tr_updates [simp]:
  "WriteRune r (tr k p) = tr k (WriteRune r p)"
  "WriteString s (tr k p) = tr k (WriteString s p)"
  "backRune (tr k p) = tr k (backRune p)"
  "(tr k p)\<lparr>choiceNest := n\<rparr> = tr k (p\<lparr>choiceNest := n\<rparr>)"
  "(tr k p)\<lparr>index := m\<rparr> = tr k (p\<lparr>index := m\<rparr>)"
  "(tr k p)\<lparr>neg := b\<rparr> = tr k (p\<lparr>neg := b\<rparr>)"
  by (simp_all add: tr_def WriteRune_def WriteString_def backRune_def)

lemma cut_before_nul:
  assumes "drop k s = CHR 0x00 # rest" and "i < k"
  shows "drop i (take k s) \<noteq> []" and "drop i s = drop i (take k s) @ CHR 0x00 # rest"
proof -
  have k: "k < length s" using assms(1) by (cases "k < length s") auto
  show "drop i (take k s) \<noteq> []" using k assms(2) by simp
  have "drop i s = drop i (take k s @ drop k s)" by simp
  also have "\<dots> = drop i (take k s) @ drop k s" using k assms(2) by (simp del: append_take_drop_id)
  finally show "drop i s = drop i (take k s) @ CHR 0x00 # rest" using assms(1) by simp
qed

lemma nextRune_tr:
  assumes "drop k (inp p) = CHR 0x00 # rest" and "index p < k"
  shows "nextRune (tr k p) = (fst (nextRune p), tr k (snd (nextRune p)))"
    and "index (snd (nextRune p)) \<le> k"
proof -
  let ?xs = "drop (index p) (take k (inp p))"
  have a: "?xs \<noteq> []" "drop (index p) (inp p) = ?xs @ CHR 0x00 # rest"
    using cut_before_nul [OF assms] by simp_all
  have d: "DecodeRuneInString (drop (index p) (inp p)) = DecodeRuneInString ?xs"
    unfolding a(2) using a(1) by (rule decode_append_ascii) (simp add: byte_def)
  show "nextRune (tr k p) = (fst (nextRune p), tr k (snd (nextRune p)))"
    by (simp add: nextRune_def Let_def case_prod_beta d tr_def)
  have k: "k < length (inp p)" using assms(1) by (cases "k < length (inp p)") auto
  have "snd (DecodeRuneInString ?xs) \<le> length ?xs" by (rule decode_width_le)
  then have "snd (DecodeRuneInString ?xs) \<le> k - index p" using k by simp
  then show "index (snd (nextRune p)) \<le> k"
    using assms(2) by (auto simp add: nextRune_def Let_def case_prod_beta d)
qed

lemma nextRune_at_nul:
  assumes "drop k (inp p) = CHR 0x00 # rest" and "index p = k"
  shows "fst (nextRune p) = eof" and "snd (nextRune p) = p\<lparr>width := 1, index := Suc k\<rparr>"
    and "nextRune (tr k p) = (eof, (tr k p)\<lparr>width := 0\<rparr>)"
proof -
  have k: "k < length (inp p)" using assms(1) by (cases "k < length (inp p)") auto
  have d: "DecodeRuneInString (drop k (inp p)) = (eof, 1)"
    using assms decode_ascii [of "CHR 0x00" rest] by (simp add: byte_def)
  show "fst (nextRune p) = eof" by (simp add: nextRune_def Let_def assms(2) d)
  show "snd (nextRune p) = p\<lparr>width := 1, index := Suc k\<rparr>"
    by (simp add: nextRune_def Let_def assms(2) d)
  show "nextRune (tr k p) = (eof, (tr k p)\<lparr>width := 0\<rparr>)"
    using assms(2) k by (simp add: nextRune_def Let_def)
qed

lemma nextRune_not_eof_before:
  assumes "drop k (inp p) = CHR 0x00 # rest" and "index p \<le> k" and "fst (nextRune p) \<noteq> eof"
  shows "index p < k"
  using nextRune_at_nul(1) [OF assms(1)] assms(2,3) by (cases "index p = k") auto

lemma peek_tr:
  assumes "drop k (inp p) = CHR 0x00 # rest" and "index p \<le> k"
  shows "peek (tr k p) = (fst (peek p), tr k (snd (peek p)))"
proof (cases "index p = k")
  case True
  show ?thesis
    using nextRune_at_nul [OF assms(1) True] True
    by (simp add: peek_def case_prod_beta tr_def backRune_def del: peek_fst)
next
  case False
  then have "index p < k" using assms(2) by simp
  then show ?thesis
    using nextRune_tr(1) [OF assms(1)] by (simp add: peek_def case_prod_beta del: peek_fst)
qed

lemma HasPrefix_tr:
  assumes "drop k s = CHR 0x00 # rest" and "i \<le> k"
  shows "HasPrefix (drop i (take k s)) ''*/'' = HasPrefix (drop i s) ''*/''"
proof -
  have k: "k < length s" using assms(1) by (cases "k < length s") auto
  have n: "s ! k = CHR 0x00" using assms(1) k by (metis nth_via_drop)
  consider "i = k" | "Suc i = k" | "Suc (Suc i) \<le> k" using assms(2) by linarith
  then show ?thesis
  proof cases
    case 1
    then show ?thesis using assms(1) k by (simp add: HasPrefix_def)
  next
    case 2
    then have "drop i s = s ! i # CHR 0x00 # rest"
      using assms(1) k by (metis Cons_nth_drop_Suc Suc_lessD)
    moreover have "take k s = take i s @ [s ! i]"
      using 2 k by (metis take_Suc_conv_app_nth Suc_lessD)
    then have "drop i (take k s) = [s ! i]"
      using 2 k by simp
    ultimately show ?thesis by (simp add: HasPrefix_def)
  next
    case 3
    then have "take (length ''*/'') (drop i (take k s)) = take (length ''*/'') (drop i s)"
      by (simp add: drop_take min_def)
    then show ?thesis by (simp only: HasPrefix_def)
  qed
qed


lemma parseMain_tr:
  assumes nul: "drop k (inp p) = CHR 0x00 # rest" and lt: "index p < k"
    and fin: "index (snd (parseMain p)) \<le> k"
  shows "parseMain (tr k p) = (fst (parseMain p), tr k (snd (parseMain p)))"
proof -
  let ?r = "fst (nextRune p)"
  let ?q = "snd (nextRune p)"
  have nq: "nextRune (tr k p) = (?r, tr k ?q)" using nextRune_tr(1) [OF nul lt] .
  have iq: "index ?q \<le> k" using nextRune_tr(2) [OF nul lt] .
  have nulq: "drop k (inp ?q) = CHR 0x00 # rest" using nul by simp
  consider (esc) "?r = rn CHR 0x5C" | (star) "?r = rn CHR ''*''"
    | (other) "?r \<noteq> rn CHR 0x5C" "?r \<noteq> rn CHR ''*''" by blast
  then show ?thesis
  proof cases
    case esc
    have "index (snd (nextRune ?q)) \<le> k"
      using fin esc by (simp add: parseMain_def Let_def case_prod_beta split: if_splits)
    then have "index ?q \<noteq> k"
      using nextRune_at_nul(2) [OF nulq, of ] by auto
    then have "index ?q < k" using iq by simp
    then have n2: "nextRune (tr k ?q) = (fst (nextRune ?q), tr k (snd (nextRune ?q)))"
      using nextRune_tr(1) [OF nulq] by simp
    show ?thesis
      using esc by (simp add: parseMain_def Let_def case_prod_beta nq n2)
  next
    case star
    have hp: "HasPrefix (drop (index ?q) (take k (inp p))) ''*/'' =
        HasPrefix (drop (index ?q) (inp p)) ''*/''"
      using HasPrefix_tr [OF nul iq] .
    have pk: "peek (tr k ?q) = (fst (peek ?q), tr k (snd (peek ?q)))"
      using peek_tr [OF nulq iq] .
    have pk2: "peek (tr k (snd (peek ?q))) = (fst (peek (snd (peek ?q))), tr k (snd (peek (snd (peek ?q)))))"
      using peek_tr [of k "snd (peek ?q)" rest] nul iq by simp
    have n3: "nextRune (tr k (WriteString s (snd (peek ?q)))) =
        (fst (nextRune (WriteString s (snd (peek ?q)))),
         tr k (snd (nextRune (WriteString s (snd (peek ?q))))))"
      if "fst (peek ?q) = rn c" "c \<noteq> CHR 0x00" for s c
    proof -
      have "fst (nextRune ?q) \<noteq> eof" using that by simp
      then have "index ?q < k" using nextRune_not_eof_before [OF nulq iq] by simp
      then show ?thesis
        using nextRune_tr(1) [of k "WriteString s (snd (peek ?q))" rest] nul by simp
    qed
    show ?thesis
      using star
      by (simp add: parseMain_def Let_def case_prod_beta nq hp pk pk2 n3 del: peek_fst)
  next
    case other
    then show ?thesis
      by (simp add: parseMain_def Let_def case_prod_beta nq)
  qed
qed

lemma classStep_tr:
  assumes nul: "drop k (inp p) = CHR 0x00 # rest" and le: "index p \<le> k"
  shows "classStep start p = Inr q \<Longrightarrow> index q \<le> k \<Longrightarrow>
           classStep start (tr k p) = Inr (tr k q)"
    and "classStep start p = Inl (Some g, q) \<Longrightarrow> index q \<le> k \<Longrightarrow>
           classStep start (tr k p) = Inl (Some g, tr k q)"
proof -
  let ?r = "fst (nextRune p)"
  let ?q = "snd (nextRune p)"
  have nulq: "drop k (inp ?q) = CHR 0x00 # rest" using nul by simp
  have step: "nextRune (tr k p) = (?r, tr k ?q) \<and> index ?q \<le> k" if "?r \<noteq> eof"
  proof -
    have lt: "index p < k" using nextRune_not_eof_before [OF nul le that] .
    show ?thesis using nextRune_tr [OF nul lt] by simp
  qed
  have step2: "nextRune (tr k ?q) = (fst (nextRune ?q), tr k (snd (nextRune ?q)))"
    if "?r \<noteq> eof" "index (snd (nextRune ?q)) \<le> k"
  proof -
    have "index ?q \<noteq> k" using nextRune_at_nul(2) [OF nulq] that(2) by auto
    then have "index ?q < k" using step [OF that(1)] by simp
    then show ?thesis using nextRune_tr(1) [OF nulq] by simp
  qed
  show "classStep start (tr k p) = Inr (tr k q)"
    if a: "classStep start p = Inr q" and b: "index q \<le> k"
  proof -
    have ne: "?r \<noteq> eof" using classStep_Inr [OF a] by simp
    note nq = step [OF ne]
    show ?thesis
    proof (cases "?r = rn CHR 0x5C")
      case True
      have "index q = index (snd (nextRune ?q))"
        using a True by (auto simp add: classStep_def Let_def split: if_splits)
      then have n2: "nextRune (tr k ?q) = (fst (nextRune ?q), tr k (snd (nextRune ?q)))"
        using step2 [OF ne] b by simp
      show ?thesis
        using a True nq n2 by (auto simp add: classStep_def Let_def split: if_splits)
    next
      case False
      then show ?thesis
        using a nq by (auto simp add: classStep_def Let_def split: if_splits)
    qed
  qed
  show "classStep start (tr k p) = Inl (Some g, tr k q)"
    if a: "classStep start p = Inl (Some g, q)" and b: "index q \<le> k"
  proof -
    have ne: "?r \<noteq> eof" using classStep_Inl_Some [OF a] .
    note nq = step [OF ne]
    show ?thesis
      using a nq by (auto simp add: classStep_def Let_def split: if_splits)
  qed
qed

lemma parseClassLoop_tr:
  "drop k (inp p) = CHR 0x00 # rest \<Longrightarrow> index p \<le> k \<Longrightarrow>
   fst (parseClassLoop start p) = Some g \<Longrightarrow> index (snd (parseClassLoop start p)) \<le> k \<Longrightarrow>
     parseClassLoop start (tr k p) = (Some g, tr k (snd (parseClassLoop start p)))"
proof (induction start p rule: parseClassLoop.induct)
  case (1 start p0)
  show ?case
  proof (cases "classStep start p0")
    case (Inl res)
    then have r: "parseClassLoop start p0 = res" by (simp add: parseClassLoop.simps [of start p0])
    then have "classStep start p0 = Inl (Some g, snd res)" using Inl "1.prems"(3) by (cases res) simp
    then have "classStep start (tr k p0) = Inl (Some g, tr k (snd res))"
      using classStep_tr(2) [OF "1.prems"(1) "1.prems"(2)] "1.prems"(4) r by simp
    then show ?thesis
      using r by (simp add: parseClassLoop.simps [of start "tr k p0"])
  next
    case (Inr q)
    have e: "parseClassLoop start p0 = parseClassLoop start q"
      using Inr by (simp add: parseClassLoop.simps [of start p0])
    have q: "inp q = inp p0" using classStep_Inr [OF Inr] by simp
    have "index q \<le> index (snd (nextRune q))" by (rule nextRune_index_mono)
    also have "\<dots> \<le> index (snd (parseClassLoop start q))" by (rule parseClassLoop_index_mono)
    finally have iq: "index q \<le> k" using "1.prems"(4) e by simp
    have "classStep start (tr k p0) = Inr (tr k q)"
      using classStep_tr(1) [OF "1.prems"(1) "1.prems"(2) Inr iq] .
    then have "parseClassLoop start (tr k p0) = parseClassLoop start (tr k q)"
      by (simp add: parseClassLoop.simps [of start "tr k p0"])
    then show ?thesis
      using "1.IH" [OF Inr] "1.prems" q iq e by simp
  qed
qed

lemma applyState_tr:
  assumes nul: "drop k (inp p) = CHR 0x00 # rest" and le: "index p \<le> k"
    and st: "applyState f p = (Some g, q)" and fin: "index q \<le> k"
  shows "applyState f (tr k p) = (Some g, tr k q)"
proof (cases f)
  case ParseMain
  then have m: "parseMain p = (Some g, q)" using st by (simp add: applyState_def)
  then have "fst (nextRune p) \<noteq> eof" using parseMain_eof [of p] by auto
  then have lt: "index p < k" using nextRune_not_eof_before [OF nul le] by simp
  show ?thesis
    using parseMain_tr [OF nul lt] m fin ParseMain by (simp add: applyState_def)
next
  case ParseClass
  let ?p = "WriteRune (rn CHR ''['') p"
  have m: "parseClassLoop (index p) ?p = (Some g, q)"
    using st ParseClass by (simp add: applyState_def parseClass_def)
  have "parseClassLoop (index p) (tr k ?p) = (Some g, tr k q)"
    using parseClassLoop_tr [of k ?p rest "index p" g] nul le m fin by simp
  then show ?thesis
    using ParseClass by (simp add: applyState_def parseClass_def)
qed

lemma reaches_tr:
  "reaches p0 f p \<Longrightarrow> drop k (inp p0) = CHR 0x00 # rest \<Longrightarrow> index p0 \<le> length (inp p0) \<Longrightarrow>
     index p \<le> k \<Longrightarrow> reaches (tr k p0) f (tr k p)"
proof (induction rule: reaches.induct)
  case start
  show ?case by (rule reaches.start)
next
  case (step f p g q)
  have a: "snd (applyState f p) = q" using step.hyps(2) by simp
  have "index p \<le> index q" using applyState_index_mono [of p f] unfolding a .
  then have ip: "index p \<le> k" using step.prems(3) by simp
  have inp: "inp p = inp p0" using reaches_invariant [OF step.hyps(1) step.prems(2)] by simp
  have "applyState f (tr k p) = (Some g, tr k q)"
    using applyState_tr [of k p rest f g q] step.prems(1) inp ip step.hyps(2) step.prems(3) by simp
  then show ?case
    using reaches.step [OF step.IH [OF step.prems(1) step.prems(2) ip]] by blast
qed

lemma run_at_nul:
  assumes "drop k (inp p) = CHR 0x00 # rest" and "index p = k"
  shows "run (Some ParseMain) p = p\<lparr>width := 1, index := Suc k\<rparr>"
    and "run (Some ParseMain) (tr k p) = (tr k p)\<lparr>width := 0\<rparr>"
proof -
  have a: "parseMain p = (None, p\<lparr>width := 1, index := Suc k\<rparr>)"
    using nextRune_at_nul(1,2) [OF assms]
    by (simp add: parseMain_def Let_def case_prod_beta)
  have b: "parseMain (tr k p) = (None, (tr k p)\<lparr>width := 0\<rparr>)"
    using nextRune_at_nul(3) [OF assms]
    by (simp add: parseMain_def Let_def case_prod_beta)
  show "run (Some ParseMain) p = p\<lparr>width := 1, index := Suc k\<rparr>"
    by (simp add: run.simps applyState_def a)
  show "run (Some ParseMain) (tr k p) = (tr k p)\<lparr>width := 0\<rparr>"
    by (simp add: run.simps applyState_def b)
qed

lemma tr_initial: "tr k (initial pat) = initial (take k pat)"
  by (simp add: initial_def tr_def WriteString_def)

lemma parsePattern_nul:
  assumes "reaches (initial pat) ParseMain p" and "drop (index p) pat = CHR 0x00 # rest"
  shows "parsePattern pat = p\<lparr>width := 1, index := Suc (index p)\<rparr>"
    and "parsePattern (take (index p) pat) = (tr (index p) p)\<lparr>width := 0\<rparr>"
proof -
  have i: "inp p = pat" using reaches_invariant [OF assms(1)] by simp
  have nul: "drop (index p) (inp p) = CHR 0x00 # rest" using assms(2) i by simp
  have "parsePattern pat = run (Some ParseMain) p"
    unfolding parsePattern_def using assms(1) by (rule reaches_run)
  then show "parsePattern pat = p\<lparr>width := 1, index := Suc (index p)\<rparr>"
    using run_at_nul(1) [OF nul] by simp
  have "reaches (tr (index p) (initial pat)) ParseMain (tr (index p) p)"
    using reaches_tr [OF assms(1), of "index p" rest] assms(2) by simp
  then have "run (Some ParseMain) (initial (take (index p) pat)) =
      run (Some ParseMain) (tr (index p) p)"
    unfolding tr_initial by (rule reaches_run)
  then show "parsePattern (take (index p) pat) = (tr (index p) p)\<lparr>width := 0\<rparr>"
    using run_at_nul(2) [OF nul] by (simp add: parsePattern_def)
qed

lemma CompileGlob_nul:
  assumes "reaches (initial pat) ParseMain p" and "drop (index p) pat = CHR 0x00 # rest"
  shows "CompileGlob pat =
    (case CompileGlob (take (index p) pat) of
       Inl e \<Rightarrow> Inl e
     | Inr g \<Rightarrow> Inr (g\<lparr>pattern := pat\<rparr>))"
  unfolding CompileGlob_def parsePattern_nul [OF assms]
  by (simp add: Let_def WriteRune_def split: option.splits sum.splits)

lemma runes_a: "runes s = [97] \<longleftrightarrow> s = ''a''"
proof
  assume r: "runes s = [97]"
  then have ne: "s \<noteq> []" by (auto simp add: runes_def decodeAll.simps [of s])
  then have d: "fst (DecodeRuneInString s) = rn CHR ''a''"
    and t: "decodeAll (drop (snd (DecodeRuneInString s)) s) = []"
    using r by (simp_all add: runes_def decodeAll.simps [of s] rn_def)
  have h: "hd s = CHR ''a''" using decode_rn_iff [of "CHR ''a''" s] d by (simp add: byte_def)
  then have s: "s = CHR ''a'' # tl s" using ne by (cases s) simp_all
  then have "DecodeRuneInString s = (rn CHR ''a'', 1)"
    using decode_ascii [of "CHR ''a''" "tl s"] by (simp add: byte_def)
  then have "decodeAll (tl s) = []" using t by (simp add: drop_Suc)
  then have "tl s = []" by (simp add: decodeAll.simps [of "tl s"] split: if_splits)
  then show "s = ''a''" using s by simp
next
  assume "s = ''a''"
  then show "runes s = [97]" by (simp add: runes_eval)
qed

lemma compile_a:
  "CompileGlob ''a'' =
     Inr \<lparr>pattern = ''a'', re = Concat BeginText (Concat (Literal 97) EndText), negated = False\<rparr>"
proof -
  have p: "out (parsePattern ''a'') = ''^(?s)a''" "err (parsePattern ''a'') = None"
    "neg (parsePattern ''a'') = False"
    by (simp_all add: glob_eval)
  have r: "regexp_Compile ''^(?s)a$'' = Inr (Concat BeginText (Concat (Literal 97) EndText))"
    by (simp add: regexp_eval rn_def)
  show ?thesis
    using p r by (simp add: CompileGlob_def EncodeRune_ascii byte_def)
qed

lemma reaches_a_nul_b:
  "reaches (initial [CHR ''a'', CHR 0x00, CHR ''b'']) ParseMain
     \<lparr>inp = [CHR ''a'', CHR 0x00, CHR ''b''], index = 1, width = 1, neg = False, err = None,
      out = ''^(?s)a'', choiceNest = 0\<rparr>"
proof -
  have "applyState ParseMain (initial [CHR ''a'', CHR 0x00, CHR ''b'']) =
      (Some ParseMain, \<lparr>inp = [CHR ''a'', CHR 0x00, CHR ''b''], index = 1, width = 1,
         neg = False, err = None, out = ''^(?s)a'', choiceNest = 0\<rparr>)"
    by (simp add: glob_eval)
  then show ?thesis using reaches.step [OF reaches.start] by blast
qed

lemma match_a: "MatchString (Concat BeginText (Concat (Literal 97) EndText)) s \<longleftrightarrow> s = ''a''"
proof -
  have "MatchString (Concat BeginText (Concat (Literal 97) EndText)) s \<longleftrightarrow> runes s = [97]"
  proof (cases "runes s")
    case Nil
    then show ?thesis by (simp add: MatchString_BeginText)
  next
    case (Cons r rs)
    then show ?thesis by (cases rs) (auto simp add: MatchString_BeginText)
  qed
  then show ?thesis by (simp add: runes_a)
qed

text \<open>
  C9 (as amended). When the loop comes to the main state with a NUL as the next byte of
  the pattern, the parse ends there: nothing is written any more, the flag and the error
  stay as they are, and only the position moves past the NUL. \<open>CompileGlob\<close> then gives what
  it gives for the pattern cut off before that NUL, the same error or the same compiled
  expression and flag; the \<open>Glob\<close> keeps the whole pattern as its text. The pattern \<open>a\<close>,
  NUL, \<open>b\<close> compiles, and matches the candidate \<open>a\<close> and no other.
\<close>

theorem C9_nul_in_main_state_ends_the_parse:
  "(reaches (initial pat) ParseMain p \<longrightarrow> drop (index p) pat = CHR 0x00 # rest \<longrightarrow>
      parsePattern pat = p\<lparr>width := 1, index := Suc (index p)\<rparr> \<and>
      CompileGlob pat =
        (case CompileGlob (take (index p) pat) of
           Inl e \<Rightarrow> Inl e
         | Inr g \<Rightarrow> Inr (g\<lparr>pattern := pat\<rparr>))) \<and>
   (\<exists>g. CompileGlob [CHR ''a'', CHR 0x00, CHR ''b''] = Inr g \<and>
        (\<forall>s. Match g s \<longleftrightarrow> s = ''a''))"
proof (intro conjI impI)
  assume a: "reaches (initial pat) ParseMain p" and b: "drop (index p) pat = CHR 0x00 # rest"
  show "parsePattern pat = p\<lparr>width := 1, index := Suc (index p)\<rparr>"
    using a b by (rule parsePattern_nul(1))
  show "CompileGlob pat =
        (case CompileGlob (take (index p) pat) of
           Inl e \<Rightarrow> Inl e
         | Inr g \<Rightarrow> Inr (g\<lparr>pattern := pat\<rparr>))"
    using a b by (rule CompileGlob_nul)
next
  let ?pat = "[CHR ''a'', CHR 0x00, CHR ''b'']"
  have "CompileGlob ?pat =
      Inr \<lparr>pattern = ?pat, re = Concat BeginText (Concat (Literal 97) EndText), negated = False\<rparr>"
    using CompileGlob_nul [OF reaches_a_nul_b, of "''b''"] compile_a by simp
  then show "\<exists>g. CompileGlob ?pat = Inr g \<and> (\<forall>s. Match g s \<longleftrightarrow> s = ''a'')"
    by (simp add: Match_def match_a)
qed

theorem C9_witness:
  "reaches (initial [CHR ''a'', CHR 0x00, CHR ''b'']) ParseMain
     \<lparr>inp = [CHR ''a'', CHR 0x00, CHR ''b''], index = 1, width = 1, neg = False, err = None,
      out = ''^(?s)a'', choiceNest = 0\<rparr> \<and>
   drop 1 [CHR ''a'', CHR 0x00, CHR ''b''] = CHR 0x00 # ''b'' \<and>
   parsePattern [CHR ''a'', CHR 0x00, CHR ''b''] =
     \<lparr>inp = [CHR ''a'', CHR 0x00, CHR ''b''], index = 2, width = 1, neg = False, err = None,
      out = ''^(?s)a'', choiceNest = 0\<rparr> \<and>
   CompileGlob [CHR ''a'', CHR 0x00, CHR ''b''] =
     Inr \<lparr>pattern = [CHR ''a'', CHR 0x00, CHR ''b''],
          re = Concat BeginText (Concat (Literal 97) EndText), negated = False\<rparr> \<and>
   CompileGlob ''a'' =
     Inr \<lparr>pattern = ''a'', re = Concat BeginText (Concat (Literal 97) EndText), negated = False\<rparr>"
proof -
  let ?pat = "[CHR ''a'', CHR 0x00, CHR ''b'']"
  let ?p = "\<lparr>inp = ?pat, index = 1, width = 1, neg = False,
             err = None :: syntax_error error option, out = ''^(?s)a'', choiceNest = 0\<rparr>"
  have h1: "reaches (initial ?pat) ParseMain ?p" by (rule reaches_a_nul_b)
  have h2: "drop (index ?p) ?pat = CHR 0x00 # ''b''" by simp
  show ?thesis
    using C9_nul_in_main_state_ends_the_parse [of ?pat ?p "''b''"] h1 h2 compile_a
    by simp
qed

text \<open>
  C9 as stated fails on the pattern backslash, NUL, \<open>-\<close>: its first NUL is read in the main
  state, by the \<open>next\<close> after the backslash, and the parse goes on. The \<open>-\<close> after the NUL is
  translated, the parse ends at the end of the input (index 3), and the compiled expression
  matches the candidate \<open>-\<close>. The pattern cut off at the NUL, a single backslash, compiles to
  an expression that does not match it. And on the pattern \<open>{\<close>, NUL, where the parse does
  end at the NUL, compilation does not succeed: the engine rejects the text, as it does for
  the pattern \<open>{\<close>.
\<close>

theorem C9_counterexample:
  "index (parsePattern [CHR 0x5C, CHR 0x00, CHR ''-'']) = 3 \<and>
   CompileGlob [CHR 0x5C, CHR 0x00, CHR ''-''] =
     Inr \<lparr>pattern = [CHR 0x5C, CHR 0x00, CHR ''-''],
          re = Concat BeginText (Concat (Literal 45) EndText), negated = False\<rparr> \<and>
   Match \<lparr>pattern = [CHR 0x5C, CHR 0x00, CHR ''-''],
          re = Concat BeginText (Concat (Literal 45) EndText), negated = False\<rparr> ''-'' \<and>
   CompileGlob [CHR 0x5C] =
     Inr \<lparr>pattern = [CHR 0x5C], re = Concat BeginText (Literal 36), negated = False\<rparr> \<and>
   \<not> Match \<lparr>pattern = [CHR 0x5C], re = Concat BeginText (Literal 36), negated = False\<rparr> ''-'' \<and>
   CompileGlob [CHR ''{'', CHR 0x00] = Inl (RegexpError ErrMissingParen)"
proof -
  let ?pat = "[CHR 0x5C, CHR 0x00, CHR ''-'']"
  have p: "out (parsePattern ?pat) = [CHR ''^'', CHR ''('', CHR ''?'', CHR ''s'', CHR '')'', CHR 0x5C, CHR ''-'']"
    "err (parsePattern ?pat) = None" "neg (parsePattern ?pat) = False"
    "index (parsePattern ?pat) = 3"
    by (simp_all add: glob_eval)
  have r: "regexp_Compile [CHR ''^'', CHR ''('', CHR ''?'', CHR ''s'', CHR '')'', CHR 0x5C, CHR ''-'', CHR ''$''] =
      Inr (Concat BeginText (Concat (Literal 45) EndText))"
    by (simp add: regexp_eval rn_def)
  have c: "CompileGlob ?pat =
      Inr \<lparr>pattern = ?pat, re = Concat BeginText (Concat (Literal 45) EndText), negated = False\<rparr>"
    using p r by (simp add: CompileGlob_def EncodeRune_ascii byte_def)
  have p2: "out (parsePattern [CHR 0x5C]) = [CHR ''^'', CHR ''('', CHR ''?'', CHR ''s'', CHR '')'', CHR 0x5C]"
    "err (parsePattern [CHR 0x5C]) = None" "neg (parsePattern [CHR 0x5C]) = False"
    by (simp_all add: glob_eval)
  have r2: "regexp_Compile [CHR ''^'', CHR ''('', CHR ''?'', CHR ''s'', CHR '')'', CHR 0x5C, CHR ''$''] =
      Inr (Concat BeginText (Literal 36))"
    by (simp add: regexp_eval rn_def)
  have c2: "CompileGlob [CHR 0x5C] =
      Inr \<lparr>pattern = [CHR 0x5C], re = Concat BeginText (Literal 36), negated = False\<rparr>"
    using p2 r2 by (simp add: CompileGlob_def EncodeRune_ascii byte_def)
  have rs: "runes ''-'' = [45]" by (simp add: runes_eval)
  have m: "MatchString (Concat BeginText (Concat (Literal 45) EndText)) ''-''"
    by (simp add: MatchString_BeginText rs)
  have m2: "\<not> MatchString (Concat BeginText (Literal 36)) ''-''"
    by (simp add: MatchString_BeginText rs)
  have p3: "out (parsePattern [CHR ''{'', CHR 0x00]) = ''^(?s)(''"
    "err (parsePattern [CHR ''{'', CHR 0x00]) = None"
    by (simp_all add: glob_eval)
  have r3: "regexp_Compile ''^(?s)($'' = Inl ErrMissingParen"
    by (simp add: regexp_eval rn_def)
  have c3: "CompileGlob [CHR ''{'', CHR 0x00] = Inl (RegexpError ErrMissingParen)"
    using p3 r3 by (simp add: CompileGlob_def EncodeRune_ascii byte_def)
  show ?thesis using p(4) c c2 c3 m m2 by (simp add: Match_def)
qed

section \<open>Unterminated variable references\<close>

text \<open>
  \<open>SimpleVariableMap\<close>, the map of subst.go: \<open>Get\<close> looks the variable up, and there is no
  \<open>CanSubstitute\<close> method. The Go map is given by its entries.
\<close>

definition SimpleVariableMap :: "(string \<times> string) list \<Rightarrow> VariableMap" where
  "SimpleVariableMap smap =
     \<lparr>Get = (\<lambda>variable. case map_of smap variable of
                     None \<Rightarrow> ([], False)
                   | Some val \<Rightarrow> (val, True)),
      CanSubstitute = None\<rparr>"

text \<open>
  The regular expression branch taken in the examples below, none of which enters it: it
  gives the value back as it is.
\<close>

definition sameValue :: "string \<Rightarrow> string \<Rightarrow> subst_error + string" where
  "sameValue d v = Inr v"

text \<open>
  \<open>arrives rr vars s i start buf\<close>: the outer loop of \<open>Substitute\<close> on \<open>s\<close> comes to test its
  condition with these values of \<open>i\<close>, \<open>start\<close> and \<open>out\<close>.
\<close>

inductive arrives ::
  "(string \<Rightarrow> string \<Rightarrow> subst_error + string) \<Rightarrow> VariableMap \<Rightarrow> string \<Rightarrow> nat \<Rightarrow> nat \<Rightarrow>
     string \<Rightarrow> bool" for rr vars s where
  first: "arrives rr vars s 0 0 []"
| turn: "arrives rr vars s i start buf \<Longrightarrow> i < length s \<Longrightarrow>
         substTurn rr vars s i start buf = Next i1 start1 buf1 \<Longrightarrow>
           arrives rr vars s (i1 + 1) start1 buf1"

text \<open>
  The guard \<open>count != 3\<close> of the \<open>/\<close> form, for the reference that begins at \<open>k\<close>: the first of
  \<open>:\<close>, \<open>/\<close> and \<open>}\<close> after \<open>${\<close> is a \<open>/\<close>, and the loop that counts the slashes ends with a
  count other than 3.
\<close>

definition slashGuard :: "string \<Rightarrow> nat \<Rightarrow> bool" where
  "slashGuard s k =
     (case IndexAny (drop (k + 2) s) '':/}'' of
        None \<Rightarrow> False
      | Some delim \<Rightarrow>
          s ! (k + 2 + delim) = CHR ''/'' \<and> snd (slashLoop s (k + 2 + delim) 1) \<noteq> 3)"

lemma arrives_run:
  "arrives rr vars s i start buf \<Longrightarrow> Substitute rr s vars = substLoop rr vars s i start buf"
proof (induction rule: arrives.induct)
  case first
  show ?case by (simp add: Substitute_def)
next
  case (turn i start buf i1 start1 buf1)
  then show ?case by (simp add: substLoop.simps [of rr vars s i start buf])
qed

lemma substitution_start:
  "substitution rr vars s start buf subsStart name i delim def = Next i' start' buf' \<Longrightarrow>
     start \<le> i \<Longrightarrow> start' \<le> i'"
  by (auto simp add: substitution_def Let_def split: if_splits option.splits sum.splits)

lemma substTurn_start:
  "substTurn rr vars s i start buf = Next i' start' buf' \<Longrightarrow> start \<le> i \<Longrightarrow> start' \<le> i'"
  using slashLoop_mono [of "i + 2 + the (IndexAny (drop (i + 2) s) '':/}'')" s 1]
  by (auto simp add: substTurn_def Let_def split: if_splits option.splits
      dest!: substitution_start)

lemma arrives_start: "arrives rr vars s i start buf \<Longrightarrow> start \<le> i"
proof (induction rule: arrives.induct)
  case first
  show ?case by simp
next
  case (turn i start buf i1 start1 buf1)
  then show ?case using substTurn_start [of rr vars s i start buf i1 start1 buf1] by simp
qed

lemma IndexAny_None: "set xs \<inter> set chars = {} \<Longrightarrow> IndexAny xs chars = None"
  by (induction xs) auto

lemma IndexAny_Some:
  "IndexAny xs chars = Some d \<Longrightarrow> d < length xs \<and> xs ! d \<in> set chars"
proof (induction xs arbitrary: d)
  case Nil
  then show ?case by simp
next
  case (Cons x xs)
  then show ?case by (auto split: if_splits)
qed

lemma IndexByte_None: "c \<notin> set (drop k s) \<Longrightarrow> k \<le> j \<Longrightarrow> IndexByte (drop j s) c = None"
proof -
  assume a: "c \<notin> set (drop k s)" and b: "k \<le> j"
  have "drop j s = drop (j - k) (drop k s)" using b by simp
  then have "set (drop j s) \<subseteq> set (drop k s)" by (metis set_drop_subset)
  then show ?thesis using a by (auto simp add: IndexByte_def intro!: IndexAny_None)
qed

lemma HasPrefix_ref: "HasPrefix (drop k s) ''${'' \<Longrightarrow> k + 2 \<le> length s"
proof -
  assume "HasPrefix (drop k s) ''${''"
  then have e: "take (length ''${'') (drop k s) = ''${''" unfolding HasPrefix_def .
  have "length (take (length ''${'') (drop k s)) = length ''${''" by (simp only: e)
  then show ?thesis by (simp add: min_def split: if_splits)
qed

text \<open>The turn of the loop at a reference that no \<open>}\<close> follows.\<close>

lemma substTurn_unterminated:
  assumes p: "HasPrefix (drop k s) ''${''"
    and n: "CHR ''}'' \<notin> set (drop k s)"
    and g: "\<not> slashGuard s k"
  shows "substTurn rr vars s k start buf = Break"
proof (cases "IndexAny (drop (k + 2) s) '':/}''")
  case None
  then show ?thesis using p by (simp add: substTurn_def)
next
  case (Some d)
  have d: "d < length (drop (k + 2) s)" using IndexAny_Some [OF Some] by simp
  then have "s ! (k + 2 + d) = drop k s ! (2 + d)" by (simp add: add.assoc)
  moreover have "2 + d < length (drop k s)" using d by simp
  ultimately have "s ! (k + 2 + d) \<in> set (drop k s)" by (metis nth_mem)
  then have c: "s ! (k + 2 + d) \<noteq> CHR ''}''" using n by auto
  have b1: "IndexByte (drop (k + 2 + (d + 1)) s) CHR ''}'' = None"
    using IndexByte_None [OF n, of "k + 2 + (d + 1)"] by simp
  have "k + 2 + d \<le> fst (slashLoop s (k + 2 + d) 1)" by (rule slashLoop_mono)
  then have b2: "IndexByte (drop (fst (slashLoop s (k + 2 + d) 1)) s) CHR ''}'' = None"
    using IndexByte_None [OF n, of "fst (slashLoop s (k + 2 + d) 1)"] by simp
  have g3: "s ! (k + 2 + d) = CHR ''/'' \<Longrightarrow> snd (slashLoop s (k + 2 + d) 1) = 3"
    using g Some by (simp add: slashGuard_def)
  show ?thesis
    using p Some c b1 b2 g3 by (simp add: substTurn_def Let_def)
qed

lemma substLoop_unterminated:
  assumes p: "HasPrefix (drop k s) ''${''"
    and n: "CHR ''}'' \<notin> set (drop k s)"
    and g: "\<not> slashGuard s k"
    and st: "start \<le> k"
  shows "substLoop rr vars s k start buf = Inr (buf @ take (k - start) (drop start s) @ drop k s)"
proof -
  have k: "k < length s" using HasPrefix_ref [OF p] by simp
  have "take (k - start) (drop start s) @ drop k s =
      take (k - start) (drop start s) @ drop (k - start) (drop start s)"
    using st by simp
  then have e: "take (k - start) (drop start s) @ drop k s = drop start s"
    by (simp only: append_take_drop_id)
  show ?thesis
    unfolding e
    using k st substTurn_unterminated [OF p n g, of rr vars start buf]
    by (simp add: substLoop.simps [of rr vars s k start buf] slice_def)
qed

text \<open>The loop comes to the first \<open>${\<close> of the input with nothing written yet.\<close>

lemma arrives_first_reference:
  "k \<le> length s \<Longrightarrow> (\<forall>i<k. \<not> HasPrefix (drop i s) ''${'') \<Longrightarrow> arrives rr vars s k 0 []"
proof (induction k)
  case 0
  show ?case by (rule arrives.first)
next
  case (Suc k)
  then have a: "arrives rr vars s k 0 []" by simp
  have "substTurn rr vars s k 0 [] = Next k 0 []"
    using Suc.prems(2) by (simp add: substTurn_def)
  then show ?case
    using arrives.turn [OF a, of k 0 "[]"] Suc.prems(1) by simp
qed

text \<open>Where the guard of the \<open>/\<close> form refuses the reference, \<open>Substitute\<close> ends with an error.\<close>

lemma substLoop_slashGuard:
  assumes "arrives rr vars s k start buf" and "HasPrefix (drop k s) ''${''" and "slashGuard s k"
  shows "\<exists>e. Substitute rr s vars = Inl e"
proof -
  have k: "k < length s" using HasPrefix_ref [OF assms(2)] by simp
  obtain d where d: "IndexAny (drop (k + 2) s) '':/}'' = Some d"
    "s ! (k + 2 + d) = CHR ''/''" "snd (slashLoop s (k + 2 + d) 1) \<noteq> 3"
    using assms(3) by (auto simp add: slashGuard_def split: option.splits)
  have "\<exists>e. substTurn rr vars s k start buf = Return (Inl e)"
    using assms(2) d by (simp add: substTurn_def Let_def split: option.splits)
  then have "\<exists>e. substLoop rr vars s k start buf = Inl e"
    using k by (auto simp add: substLoop.simps [of rr vars s k start buf])
  then show ?thesis using arrives_run [OF assms(1)] by simp
qed

text \<open>
  C10 (as amended). When the loop of \<open>Substitute\<close> comes to a \<open>${\<close> at \<open>k\<close> that no \<open>}\<close> follows,
  and the reference is not one that the guard of the \<open>/\<close> form refuses, \<open>Substitute\<close> returns
  without an error: the output is what was written before (\<open>buf\<close>), the text between the
  last substitution and \<open>k\<close>, and the text from that \<open>${\<close> to the end of the input as it is.
\<close>

theorem C10_unterminated_reference_is_copied:
  assumes "arrives rr vars s k start buf"
    and "HasPrefix (drop k s) ''${''"
    and "CHR ''}'' \<notin> set (drop k s)"
    and "\<not> slashGuard s k"
  shows "Substitute rr s vars = Inr (buf @ take (k - start) (drop start s) @ drop k s)"
proof -
  have "start \<le> k" using assms(1) by (rule arrives_start)
  then have "substLoop rr vars s k start buf =
      Inr (buf @ take (k - start) (drop start s) @ drop k s)"
    using assms(2,3,4) by (rule substLoop_unterminated [rotated 3])
  then show ?thesis using arrives_run [OF assms(1)] by simp
qed

theorem C10_witness:
  "arrives sameValue (SimpleVariableMap [(''variable'', ''value'')]) ''${variable'' 0 0 [] \<and>
   HasPrefix (drop 0 ''${variable'') ''${'' \<and>
   CHR ''}'' \<notin> set (drop 0 ''${variable'') \<and>
   \<not> slashGuard ''${variable'' 0 \<and>
   Substitute sameValue ''${variable'' (SimpleVariableMap [(''variable'', ''value'')]) =
     Inr ''${variable'' \<and>
   \<not> slashGuard ''${variable:-'' 0 \<and>
   Substitute sameValue ''${variable:-'' (SimpleVariableMap [(''variable'', ''value'')]) =
     Inr ''${variable:-'' \<and>
   \<not> slashGuard ''${variable/foo/bar'' 0 \<and>
   Substitute sameValue ''${variable/foo/bar'' (SimpleVariableMap [(''variable'', ''value'')]) =
     Inr ''${variable/foo/bar''"
proof -
  let ?vars = "SimpleVariableMap [(''variable'', ''value'')]"
  have a: "arrives sameValue ?vars s 0 0 []" for s by (rule arrives.first)
  have g1: "\<not> slashGuard ''${variable'' 0" by (simp add: slashGuard_def)
  have g2: "\<not> slashGuard ''${variable:-'' 0" by (simp add: slashGuard_def)
  have g3: "\<not> slashGuard ''${variable/foo/bar'' 0"
    by (simp add: slashGuard_def slashLoop.simps)
  have r1: "Substitute sameValue ''${variable'' ?vars = Inr ''${variable''"
    using C10_unterminated_reference_is_copied [OF a, of "''${variable''"] g1
    by (simp add: HasPrefix_def)
  have r2: "Substitute sameValue ''${variable:-'' ?vars = Inr ''${variable:-''"
    using C10_unterminated_reference_is_copied [OF a, of "''${variable:-''"] g2
    by (simp add: HasPrefix_def)
  have r3: "Substitute sameValue ''${variable/foo/bar'' ?vars = Inr ''${variable/foo/bar''"
    using C10_unterminated_reference_is_copied [OF a, of "''${variable/foo/bar''"] g3
    by (simp add: HasPrefix_def)
  show ?thesis using a g1 g2 g3 r1 r2 r3 by (simp add: HasPrefix_def)
qed

text \<open>
  C10 as stated fails on the input \<open>${a/b\<close>: no \<open>}\<close> ends the reference, the slashes are
  counted before a \<open>}\<close> is looked for, and \<open>Substitute\<close> returns the error of a malformed
  regexp substitution. It fails on \<open>${undefined}${variable\<close> too, where the reference before
  the unterminated one ends the call with the error of an undefined variable.
\<close>

theorem C10_counterexample:
  "HasPrefix ''${a/b'' ''${'' \<and> CHR ''}'' \<notin> set ''${a/b'' \<and>
   Substitute sameValue ''${a/b'' (SimpleVariableMap [(''variable'', ''value'')]) =
     Inl (MalformedRegexpSubstitution ''${a/b'') \<and>
   HasPrefix (drop 12 ''${undefined}${variable'') ''${'' \<and>
   CHR ''}'' \<notin> set (drop 12 ''${undefined}${variable'') \<and>
   Substitute sameValue ''${undefined}${variable'' (SimpleVariableMap [(''variable'', ''value'')]) =
     Inl (UndefinedVariable ''undefined'')"
proof -
  let ?vars = "SimpleVariableMap [(''variable'', ''value'')]"
  have a: "Substitute sameValue ''${a/b'' ?vars = Inl (MalformedRegexpSubstitution ''${a/b'')"
    by (simp add: HasPrefix_def Substitute_def substLoop.simps substTurn_def slashLoop.simps
        slice_def Let_def)
  have b: "Substitute sameValue ''${undefined}${variable'' ?vars =
      Inl (UndefinedVariable ''undefined'')"
    by (simp add: HasPrefix_def Substitute_def substLoop.simps substTurn_def substitution_def
        SimpleVariableMap_def slice_def Let_def)
  show ?thesis using a b by (simp add: HasPrefix_def)
qed

end
